theory Spec2Isabelle
  imports Complex_Main "HOL-Library.AList"
begin

section \<open>Strings\<close>

text \<open>
  A Go string is a sequence of bytes, and so is a HOL \<open>string\<close>. The report format is an
  ASCII format, but the program receives whatever bytes the service sends.

  \<open>strings.ToLower\<close> is modelled on every byte string, because the program uses positions
  found in a lower-cased copy: on ASCII text it maps byte by byte; on other text it decodes
  the text as UTF-8, maps each code point and encodes the result, which can change the
  length in bytes. \<open>strings.ToUpper\<close> and \<open>strings.TrimSpace\<close> are modelled on ASCII text
  only (their byte-wise paths): on text with a byte from 128 up the model keeps those bytes
  where Go would map code points through the Unicode tables. The program uses their
  results as values only, never as positions.
\<close>

definition is_ascii :: "string \<Rightarrow> bool" where
  "is_ascii s = list_all (\<lambda>c. (of_char c :: nat) < 128) s"

definition lower_byte :: "char \<Rightarrow> char" where
  "lower_byte c =
     (if 65 \<le> (of_char c :: nat) \<and> (of_char c :: nat) \<le> 90
      then char_of ((of_char c :: nat) + 32) else c)"

definition upper_byte :: "char \<Rightarrow> char" where
  "upper_byte c =
     (if 97 \<le> (of_char c :: nat) \<and> (of_char c :: nat) \<le> 122
      then char_of ((of_char c :: nat) - 32) else c)"

text \<open>
  UTF-8 as Go's package \<open>unicode/utf8\<close> reads and writes it. \<open>DecodeRune\<close> gives the code
  point at the head of a text and its width in bytes; a byte that begins no well-formed
  encoding (a stray continuation byte, an overlong or truncated sequence, a surrogate, a
  value above \<open>U+10FFFF\<close>) is read as \<open>RuneError\<close>, \<open>U+FFFD\<close>, of width \<open>1\<close>. \<open>EncodeRune\<close>
  writes a code point in one to four bytes, and \<open>RuneError\<close> for what is not a code point.
\<close>

definition RuneError :: int where
  "RuneError = 65533"

definition cont :: "char \<Rightarrow> bool" where
  "cont c = (128 \<le> (of_char c :: int) \<and> (of_char c :: int) \<le> 191)"

definition DecodeRune :: "string \<Rightarrow> int \<times> nat" where
  "DecodeRune s =
     (case s of
        [] \<Rightarrow> (RuneError, 0)
      | c0 # s1 \<Rightarrow>
          (let b0 = (of_char c0 :: int)
           in if b0 < 128 then (b0, 1)
              else if 194 \<le> b0 \<and> b0 \<le> 223
              then (case s1 of
                      c1 # s2 \<Rightarrow>
                        if cont c1 then ((b0 - 192) * 64 + (of_char c1 - 128), 2)
                        else (RuneError, 1)
                    | [] \<Rightarrow> (RuneError, 1))
              else if 224 \<le> b0 \<and> b0 \<le> 239
              then (case s1 of
                      c1 # c2 # s3 \<Rightarrow>
                        if (if b0 = 224 then 160 else 128) \<le> (of_char c1 :: int) \<and>
                           (of_char c1 :: int) \<le> (if b0 = 237 then 159 else 191) \<and> cont c2
                        then ((b0 - 224) * 4096 + (of_char c1 - 128) * 64 + (of_char c2 - 128), 3)
                        else (RuneError, 1)
                    | _ \<Rightarrow> (RuneError, 1))
              else if 240 \<le> b0 \<and> b0 \<le> 244
              then (case s1 of
                      c1 # c2 # c3 # s4 \<Rightarrow>
                        if (if b0 = 240 then 144 else 128) \<le> (of_char c1 :: int) \<and>
                           (of_char c1 :: int) \<le> (if b0 = 244 then 143 else 191) \<and>
                           cont c2 \<and> cont c3
                        then ((b0 - 240) * 262144 + (of_char c1 - 128) * 4096 +
                              (of_char c2 - 128) * 64 + (of_char c3 - 128), 4)
                        else (RuneError, 1)
                    | _ \<Rightarrow> (RuneError, 1))
              else (RuneError, 1)))"

definition EncodeRune :: "int \<Rightarrow> string" where
  "EncodeRune r0 =
     (let r = (if r0 < 0 \<or> 1114111 < r0 \<or> (55296 \<le> r0 \<and> r0 \<le> 57343) then RuneError else r0)
      in if r < 128 then [char_of r]
         else if r < 2048 then [char_of (192 + r div 64), char_of (128 + r mod 64)]
         else if r < 65536
         then [char_of (224 + r div 4096), char_of (128 + r div 64 mod 64),
               char_of (128 + r mod 64)]
         else [char_of (240 + r div 262144), char_of (128 + r div 4096 mod 64),
               char_of (128 + r div 64 mod 64), char_of (128 + r mod 64)])"

text \<open>\<open>strings.Map(mapping, s)\<close>: the encodings of the images of the code points of \<open>s\<close>, in
  order; a negative image is dropped.\<close>

function Map :: "(int \<Rightarrow> int) \<Rightarrow> string \<Rightarrow> string" where
  "Map mapping s =
     (if s = [] then []
      else
        (case DecodeRune s of
           (c, width) \<Rightarrow>
             (if mapping c < 0 then [] else EncodeRune (mapping c)) @
             Map mapping (drop width s)))"
  by pat_completeness auto

lemma DecodeRune_width: "s \<noteq> [] \<Longrightarrow> 0 < snd (DecodeRune s)"
  by (auto simp: DecodeRune_def Let_def split: list.splits)

termination Map
proof (relation "measure (\<lambda>(mapping, s). length s)", goal_cases)
  case 1
  then show ?case by simp
next
  case (2 mapping s x c)
  then show ?case using DecodeRune_width[of s] by (cases "DecodeRune s") simp
qed

declare Map.simps [simp del]

text \<open>
  \<open>unicode.ToLower\<close>. Its table for the code points from \<open>128\<close> up belongs to Go's library
  and is not part of this program; it is the parameter \<open>L\<close> of the model, and what is
  proved holds for every table. Two facts about it are fixed here: the letters \<open>A\<close> to
  \<open>Z\<close> map to \<open>a\<close> to \<open>z\<close> and no other ASCII code point changes, and \<open>U+FFFD\<close>, which is
  not a letter, is its own lower case.
\<close>

type_synonym case_table = "int \<Rightarrow> int"

definition unicode_ToLower :: "case_table \<Rightarrow> int \<Rightarrow> int" where
  "unicode_ToLower L r =
     (if r < 128 then (if 65 \<le> r \<and> r \<le> 90 then r + 32 else r)
      else if r = RuneError then r
      else L r)"

text \<open>\<open>strings.ToLower\<close>: byte by byte on ASCII text, through \<open>Map\<close> on any other.\<close>

definition ToLower :: "case_table \<Rightarrow> string \<Rightarrow> string" where
  "ToLower L s = (if is_ascii s then map lower_byte s else Map (unicode_ToLower L) s)"

text \<open>\<open>strings.ToUpper\<close> on ASCII text. (On other text Go upper-cases the code points from
  \<open>128\<close> up as well; the model keeps their bytes.)\<close>

definition ToUpper :: "string \<Rightarrow> string" where
  "ToUpper s = map upper_byte s"

text \<open>\<open>strings.TrimSpace\<close> on ASCII text: the six ASCII white-space bytes are trimmed at
  both ends. (Go also trims the white space that Unicode has from \<open>128\<close> up.)\<close>

definition is_space :: "char \<Rightarrow> bool" where
  "is_space c = ((of_char c :: nat) \<in> {9, 10, 11, 12, 13, 32})"

definition TrimSpace :: "string \<Rightarrow> string" where
  "TrimSpace s = rev (dropWhile is_space (rev (dropWhile is_space s)))"

text \<open>\<open>strings.Index(s, substr)\<close>: the first position of \<open>substr\<close> in \<open>s\<close>; Go's \<open>-1\<close>
  is \<open>None\<close>.\<close>

fun Index :: "string \<Rightarrow> string \<Rightarrow> nat option" where
  "Index [] sub = (if sub = [] then Some 0 else None)"
| "Index (c # cs) sub =
     (if take (length sub) (c # cs) = sub then Some 0 else map_option Suc (Index cs sub))"

text \<open>\<open>strings.Split(s, sep)\<close> for a one-byte separator. The result is never empty, so
  that its element \<open>0\<close> is its head.\<close>

fun Split :: "string \<Rightarrow> char \<Rightarrow> string list" where
  "Split [] sep = [[]]"
| "Split (c # cs) sep =
     (if c = sep then [] # Split cs sep
      else (case Split cs sep of [] \<Rightarrow> [[c]] | p # ps \<Rightarrow> (c # p) # ps))"

lemma Split_nonempty: "Split s sep \<noteq> []"
  by (induction s) (auto split: list.splits)

section \<open>Integers\<close>

text \<open>Go's \<open>int\<close> on a 64-bit platform: two's complement, addition wraps silently.\<close>

definition wrap64 :: "int \<Rightarrow> int" where
  "wrap64 x = (x + 2 ^ 63) mod 2 ^ 64 - 2 ^ 63"

definition is_digit :: "char \<Rightarrow> bool" where
  "is_digit c = (48 \<le> (of_char c :: nat) \<and> (of_char c :: nat) \<le> 57)"

definition digits_val :: "string \<Rightarrow> int" where
  "digits_val ds = foldl (\<lambda>n c. 10 * n + ((of_char c :: int) - 48)) 0 ds"

text \<open>\<open>strconv.Atoi\<close>: an optional sign, then one or more decimal digits; a syntax error
  or a value outside the 64-bit range is an error (\<open>None\<close>).\<close>

definition Atoi :: "string \<Rightarrow> int option" where
  "Atoi s =
     (let neg = (s \<noteq> [] \<and> hd s = CHR ''-'');
          ds = (if s \<noteq> [] \<and> (hd s = CHR ''-'' \<or> hd s = CHR ''+'') then tl s else s)
      in if ds = [] \<or> \<not> list_all is_digit ds then None
         else let v = (if neg then - digits_val ds else digits_val ds)
              in if v < - (2 ^ 63) \<or> 2 ^ 63 - 1 < v then None else Some v)"

section \<open>Go maps\<close>

text \<open>
  A Go map is modelled as an association list with distinct keys, in the order of first
  insertion: \<open>m[k] = v\<close> is \<open>AList.update k v m\<close>, the two-valued read
  \<open>v, ok := m[k]\<close> is \<open>map_of m k\<close>, and \<open>len(m)\<close> is \<open>length m\<close>. Go does not fix an
  iteration order; nothing below depends on the order chosen here.
\<close>

type_synonym ('k, 'v) gomap = "('k \<times> 'v) list"

text \<open>The one-valued read \<open>m[k]\<close> of a \<open>map[string]string\<close>: the empty string when absent.\<close>

definition lookup :: "(string, string) gomap \<Rightarrow> string \<Rightarrow> string" where
  "lookup m k = (case map_of m k of None \<Rightarrow> [] | Some v \<Rightarrow> v)"

section \<open>The field decoder\<close>

text \<open>A \<open>Record\<close> is Go's \<open>map[string]string\<close>.\<close>

type_synonym Record = "(string, string) gomap"

text \<open>The run-time panic of a slice expression \<open>s[lo:hi]\<close> outside \<open>0 \<le> lo \<le> hi \<le> len(s)\<close>.\<close>

datatype fault = SliceBoundsOutOfRange

definition slice :: "string \<Rightarrow> int \<Rightarrow> int \<Rightarrow> fault + string" where
  "slice s lo hi =
     (if 0 \<le> lo \<and> lo \<le> hi \<and> hi \<le> int (length s)
      then Inr (take (nat hi - nat lo) (drop (nat lo) s))
      else Inl SliceBoundsOutOfRange)"

text \<open>
  The loop of \<open>parseRecord\<close>, with the remaining \<open>input\<close> and the record built so far.
  The slices \<open>input[start:]\<close>, \<open>input[start+1:end]\<close> and \<open>input[end+1:]\<close> are in range
  by construction and are written with \<open>take\<close> and \<open>drop\<close>; \<open>input[dataStart:dataEnd]\<close>
  is the one slice whose bounds come from the data. A panic is \<open>Inl\<close>; the \<open>error\<close> that
  \<open>parseRecord\<close> returns is always \<open>nil\<close> and is left out.
\<close>

function parse_loop :: "string \<Rightarrow> Record \<Rightarrow> fault + Record" where
  "parse_loop input rec =
     (case Index input ''<'' of
        None \<Rightarrow> Inr rec
      | Some start \<Rightarrow>
          (case Index (drop start input) ''>'' of
             None \<Rightarrow> Inr rec
           | Some e \<Rightarrow>
               (let end = e + start;
                    tagContent = take (end - (start + 1)) (drop (start + 1) input);
                    parts = Split tagContent CHR '':'';
                    fieldName = ToUpper (hd parts)
                in if length parts < 2 then parse_loop (drop (end + 1) input) rec
                   else
                     (case Atoi (parts ! 1) of
                        None \<Rightarrow> parse_loop (drop (end + 1) input) rec
                      | Some len \<Rightarrow>
                          (let dataStart = int end + 1;
                               dataEnd0 = wrap64 (dataStart + len);
                               dataEnd = (if int (length input) < dataEnd0
                                          then int (length input) else dataEnd0)
                           in case slice input dataStart dataEnd of
                                Inl f \<Rightarrow> Inl f
                              | Inr v \<Rightarrow>
                                  parse_loop (drop (nat dataEnd) input)
                                    (AList.update fieldName v rec))))))"
  by pat_completeness auto

lemma Index_le: "Index s sub = Some i \<Longrightarrow> i + length sub \<le> length s"
proof (induction s arbitrary: i)
  case Nil
  then show ?case by (simp split: if_splits)
next
  case (Cons c cs)
  show ?case
  proof (cases "take (length sub) (c # cs) = sub")
    case True
    with Cons.prems have "i = 0" by simp
    moreover have "length (take (length sub) (c # cs)) \<le> length (c # cs)"
      by simp
    with True have "length sub \<le> length (c # cs)" by simp
    ultimately show ?thesis by simp
  next
    case False
    with Cons.prems obtain j where "Index cs sub = Some j" "i = Suc j" by auto
    with Cons.IH show ?thesis by fastforce
  qed
qed

lemma Index_at: "Index s sub = Some i \<Longrightarrow> take (length sub) (drop i s) = sub"
proof (induction s arbitrary: i)
  case Nil
  then show ?case by (simp split: if_splits)
next
  case (Cons c cs)
  then show ?case by (auto split: if_splits)
qed

lemma Index_first:
  "Index s sub = Some i \<Longrightarrow> j < i \<Longrightarrow> take (length sub) (drop j s) \<noteq> sub"
proof (induction s arbitrary: i j)
  case Nil
  then show ?case by (simp split: if_splits)
next
  case (Cons c cs)
  show ?case
  proof (cases "take (length sub) (c # cs) = sub")
    case True
    with Cons.prems show ?thesis by simp
  next
    case False
    with Cons.prems obtain i' where i': "Index cs sub = Some i'" "i = Suc i'" by auto
    show ?thesis
    proof (cases j)
      case 0
      with False show ?thesis by simp
    next
      case (Suc j')
      with Cons.prems(2) i' have "j' < i'" by simp
      from Cons.IH[OF i'(1) this] Suc show ?thesis by simp
    qed
  qed
qed

lemma Index_None:
  "Index s sub = None \<Longrightarrow> take (length sub) (drop j s) \<noteq> sub"
proof (induction s arbitrary: j)
  case Nil
  then show ?case by (auto split: if_splits)
next
  case (Cons c cs)
  then show ?case by (cases j) (auto split: if_splits)
qed

lemma Index_eqI:
  assumes "take (length sub) (drop i s) = sub"
    and "\<And>j. j < i \<Longrightarrow> take (length sub) (drop j s) \<noteq> sub"
  shows "Index s sub = Some i"
proof (cases "Index s sub")
  case None
  from Index_None[OF this] assms(1) show ?thesis by blast
next
  case (Some k)
  have "\<not> k < i" using Index_at[OF Some] assms(2) by blast
  moreover have "\<not> i < k" using Index_first[OF Some] assms(1) by blast
  ultimately show ?thesis using Some by simp
qed

lemma Index_char: "c \<notin> set pre \<Longrightarrow> Index (pre @ c # post) [c] = Some (length pre)"
  by (induction pre) auto

lemma Index_char_None: "c \<notin> set s \<Longrightarrow> Index s (c # sub) = None"
  by (induction s) auto

termination parse_loop
proof (relation "measure (\<lambda>(input, rec). length input)", goal_cases)
  case 1
  then show ?case by simp
next
  case (2 input rec start e)
  then show ?case using Index_le[of input "''<''" start] by simp
next
  case (3 input rec start e)
  then show ?case using Index_le[of input "''<''" start] by simp
next
  case (4 input rec start e en tc parts fn len ds de0 de v)
  then show ?case using Index_le[of input "''<''" start]
    by (auto simp: slice_def split: if_splits)
qed

declare parse_loop.simps [simp del]

definition parseRecord :: "string \<Rightarrow> fault + Record" where
  "parseRecord text = parse_loop text []"

text \<open>
  One iteration of that loop, by its outcome: the loop ends (\<open>Stop\<close>), the tag is skipped
  and scanning resumes on the given input (\<open>Skip\<close>), a field is assigned and scanning
  resumes (\<open>Assign\<close>), or the slice expression panics (\<open>Fault\<close>).
\<close>

datatype step = Stop | Skip string | Assign string string string | Fault fault

definition decode_step :: "string \<Rightarrow> step" where
  "decode_step input =
     (case Index input ''<'' of
        None \<Rightarrow> Stop
      | Some start \<Rightarrow>
          (case Index (drop start input) ''>'' of
             None \<Rightarrow> Stop
           | Some e \<Rightarrow>
               (let end = e + start;
                    tagContent = take (end - (start + 1)) (drop (start + 1) input);
                    parts = Split tagContent CHR '':'';
                    fieldName = ToUpper (hd parts)
                in if length parts < 2 then Skip (drop (end + 1) input)
                   else
                     (case Atoi (parts ! 1) of
                        None \<Rightarrow> Skip (drop (end + 1) input)
                      | Some len \<Rightarrow>
                          (let dataStart = int end + 1;
                               dataEnd0 = wrap64 (dataStart + len);
                               dataEnd = (if int (length input) < dataEnd0
                                          then int (length input) else dataEnd0)
                           in case slice input dataStart dataEnd of
                                Inl f \<Rightarrow> Fault f
                              | Inr v \<Rightarrow> Assign fieldName v (drop (nat dataEnd) input))))))"

lemma parse_loop_step:
  "parse_loop input rec =
     (case decode_step input of
        Stop \<Rightarrow> Inr rec
      | Skip r \<Rightarrow> parse_loop r rec
      | Assign n v r \<Rightarrow> parse_loop r (AList.update n v rec)
      | Fault f \<Rightarrow> Inl f)"
  by (subst parse_loop.simps)
    (simp add: decode_step_def Let_def split: option.splits sum.splits)

lemma decode_step_Skip: "decode_step input = Skip r \<Longrightarrow> length r < length input"
  using Index_le[of input "''<''"]
  by (auto simp: decode_step_def Let_def slice_def split: option.splits sum.splits if_splits)

lemma decode_step_Assign: "decode_step input = Assign n v r \<Longrightarrow> length r < length input"
  using Index_le[of input "''<''"]
  by (auto simp: decode_step_def Let_def slice_def split: option.splits sum.splits if_splits)

text \<open>The assignments \<open>rec[fieldName] = value\<close> that the loop makes on \<open>input\<close>, in the order
  in which it makes them.\<close>

function assignments :: "string \<Rightarrow> (string \<times> string) list" where
  "assignments input =
     (case decode_step input of
        Stop \<Rightarrow> []
      | Skip r \<Rightarrow> assignments r
      | Assign n v r \<Rightarrow> (n, v) # assignments r
      | Fault f \<Rightarrow> [])"
  by pat_completeness auto

termination assignments
  by (relation "measure length") (auto dest: decode_step_Skip decode_step_Assign)

declare assignments.simps [simp del]

section \<open>The record tokenizer\<close>

text \<open>
  The split function that \<open>Parse\<close> hands to the scanner. It returns the number of bytes to
  advance and the token; a \<open>nil\<close> token is \<open>None\<close>, and its error is always \<open>nil\<close>. The index
  \<open>idx\<close> found in the lower-cased copy is used on the data itself: \<open>data[0:idx]\<close> is a slice
  of a slice, in range up to the capacity \<open>cap\<close> of \<open>data\<close> and not only up to its length,
  and a panic beyond. The token is written \<open>take idx data\<close>: when \<open>idx\<close> exceeds the
  length, the bytes of the buffer past the data belong to the token in Go, but then the
  scanner refuses the advance \<open>idx + 5\<close> and no one reads the token.
\<close>

definition splitEOR :: "case_table \<Rightarrow> string \<Rightarrow> int \<Rightarrow> bool \<Rightarrow> fault + nat \<times> string option" where
  "splitEOR L data cap atEOF =
     (if atEOF \<and> data = [] then Inr (0, None)
      else
        (case Index (ToLower L data) ''<eor>'' of
           Some idx \<Rightarrow>
             if cap < int idx then Inl SliceBoundsOutOfRange
             else Inr (idx + 5, Some (take idx data))
         | None \<Rightarrow> if atEOF then Inr (length data, Some data) else Inr (0, None)))"

text \<open>
  \<open>bufio.Scanner\<close> over a \<open>strings.Reader\<close>. The scanner's buffer has length and capacity
  \<open>buf_len\<close> and holds the unprocessed bytes \<open>held\<close> from index \<open>start\<close>; \<open>rest\<close> is what the
  reader has not delivered yet, and \<open>at_eof\<close> says that the reader has reported \<open>io.EOF\<close>
  (the only error a \<open>strings.Reader\<close> gives). Sizes are Go \<open>int\<close>s.
\<close>

datatype scan_error = ErrTooLong | ErrAdvanceTooFar | ErrNoProgress

text \<open>How a scan ends: \<open>Scan\<close> returns \<open>false\<close> at the end of the input or with an error, or
  the split function panics.\<close>

datatype stop = EndOfInput | ScanError scan_error | Panic fault

record scanner =
  buf_len :: int
  start :: int
  held :: string
  rest :: string
  at_eof :: bool

definition maxTokenSize :: int where
  "maxTokenSize = 50 * 1024 * 1024"

definition startBufSize :: int where
  "startBufSize = 4096"

definition maxInt :: int where
  "maxInt = 2 ^ 63 - 1"

text \<open>The first half of an iteration of \<open>Scan\<close>: with data in the buffer, or at the end of
  the input, call the split function on \<open>buf[start:end]\<close>, whose capacity is
  \<open>buf_len - start\<close>, and advance over what it consumed.\<close>

definition try_split :: "case_table \<Rightarrow> scanner \<Rightarrow> stop + (string option \<times> scanner)" where
  "try_split L s =
     (if held s \<noteq> [] \<or> at_eof s
      then
        (case splitEOR L (held s) (buf_len s - start s) (at_eof s) of
           Inl f \<Rightarrow> Inl (Panic f)
         | Inr (advance, token) \<Rightarrow>
             if length (held s) < advance then Inl (ScanError ErrAdvanceTooFar)
             else Inr (token, s\<lparr>start := start s + int advance, held := drop advance (held s)\<rparr>))
      else Inr (None, s))"

text \<open>The second half: move the held bytes to the front of the buffer when that frees
  space, double a full buffer up to the maximum token size, and read once.\<close>

definition shift :: "scanner \<Rightarrow> scanner" where
  "shift s =
     (if 0 < start s \<and>
         (start s + int (length (held s)) = buf_len s \<or> buf_len s div 2 < start s)
      then s\<lparr>start := 0\<rparr> else s)"

definition grow :: "scanner \<Rightarrow> scan_error + scanner" where
  "grow s =
     (if start s + int (length (held s)) = buf_len s
      then
        (if maxTokenSize \<le> buf_len s \<or> maxInt div 2 < buf_len s then Inl ErrTooLong
         else
           (let newSize = (if buf_len s * 2 = 0 then startBufSize else buf_len s * 2)
            in Inr (s\<lparr>buf_len := min newSize maxTokenSize, start := 0\<rparr>)))
      else Inr s)"

definition read :: "scanner \<Rightarrow> scan_error + scanner" where
  "read s =
     (if rest s = [] then Inr (s\<lparr>at_eof := True\<rparr>)
      else
        (let n = nat (min (buf_len s - (start s + int (length (held s)))) (int (length (rest s))))
         in if n = 0 then Inl ErrNoProgress
            else Inr (s\<lparr>held := held s @ take n (rest s), rest := drop n (rest s)\<rparr>)))"

definition read_more :: "scanner \<Rightarrow> scan_error + scanner" where
  "read_more s = (case grow (shift s) of Inl e \<Rightarrow> Inl e | Inr s' \<Rightarrow> read s')"

text \<open>The calls of \<open>Scan\<close> until the scan ends: the tokens in order, and how it ended.\<close>

function scan_tokens :: "case_table \<Rightarrow> scanner \<Rightarrow> string list \<times> stop" where
  "scan_tokens L s =
     (case try_split L s of
        Inl e \<Rightarrow> ([], e)
      | Inr (Some t, s1) \<Rightarrow> (case scan_tokens L s1 of (ts, e) \<Rightarrow> (t # ts, e))
      | Inr (None, s1) \<Rightarrow>
          if at_eof s1 then ([], EndOfInput)
          else (case read_more s1 of
                  Inl e \<Rightarrow> ([], ScanError e)
                | Inr s2 \<Rightarrow> scan_tokens L s2))"
  by pat_completeness auto

definition scan_measure :: "scanner \<Rightarrow> nat" where
  "scan_measure s = 2 * length (rest s) + length (held s) + (if at_eof s then 0 else 1)"

lemma ToLower_Nil: "ToLower L [] = []"
  by (simp add: ToLower_def is_ascii_def)

lemma splitEOR_token: "splitEOR L d cap e = Inr (a, Some t) \<Longrightarrow> 0 < a \<and> d \<noteq> []"
  by (cases d) (auto simp: splitEOR_def ToLower_Nil split: if_splits option.splits)

lemma splitEOR_no_token: "splitEOR L d cap e = Inr (a, None) \<Longrightarrow> a = 0"
  by (auto simp: splitEOR_def split: if_splits option.splits)

lemma try_split_token:
  "try_split L s = Inr (Some t, s1) \<Longrightarrow> scan_measure s1 < scan_measure s"
  by (auto simp: try_split_def scan_measure_def split: if_splits prod.splits sum.splits
      dest!: splitEOR_token)

lemma try_split_no_token: "try_split L s = Inr (None, s1) \<Longrightarrow> s1 = s"
  by (auto simp: try_split_def split: if_splits prod.splits sum.splits dest!: splitEOR_no_token)

lemma shift_same:
  "held (shift s) = held s \<and> rest (shift s) = rest s \<and> at_eof (shift s) = at_eof s"
  by (simp add: shift_def)

lemma grow_same:
  "grow s = Inr s' \<Longrightarrow> held s' = held s \<and> rest s' = rest s \<and> at_eof s' = at_eof s"
  by (auto simp: grow_def Let_def split: if_splits)

lemma read_measure:
  assumes "read s = Inr s'" and "\<not> at_eof s"
  shows "scan_measure s' < scan_measure s"
proof (cases "rest s = []")
  case True
  with assms show ?thesis by (auto simp: read_def scan_measure_def)
next
  case False
  define n where "n = nat (min (buf_len s - (start s + int (length (held s)))) (int (length (rest s))))"
  from assms False have n: "n \<noteq> 0"
    and s': "s' = s\<lparr>held := held s @ take n (rest s), rest := drop n (rest s)\<rparr>"
    by (auto simp: read_def Let_def n_def split: if_splits)
  have "n \<le> length (rest s)" by (simp add: n_def)
  with n s' assms(2) show ?thesis by (simp add: scan_measure_def)
qed

lemma read_more_measure:
  assumes "read_more s = Inr s2" and "\<not> at_eof s"
  shows "scan_measure s2 < scan_measure s"
proof -
  from assms(1) obtain s' where g: "grow (shift s) = Inr s'" and r: "read s' = Inr s2"
    by (auto simp: read_more_def split: sum.splits)
  from grow_same[OF g] shift_same[of s]
  have same: "held s' = held s" "rest s' = rest s" "at_eof s' = at_eof s" by simp_all
  with assms(2) read_measure[OF r] have "scan_measure s2 < scan_measure s'" by simp
  with same show ?thesis by (simp add: scan_measure_def)
qed

termination scan_tokens
proof (relation "measure (\<lambda>(L, s). scan_measure s)", goal_cases)
  case 1
  then show ?case by simp
next
  case 2
  then show ?case
    by (auto dest: try_split_token dest!: try_split_no_token intro: read_more_measure)
next
  case 3
  then show ?case
    by (auto dest: try_split_token dest!: try_split_no_token intro: read_more_measure)
qed

declare scan_tokens.simps [simp del]

text \<open>
  The words of the spec about the tokenizer, on ASCII text. The end-of-record marker
  stands at the head of a text when the first five characters are \<open><eor>\<close> in any case;
  the number of markers in a stream is the number of positions at which the marker
  stands. The records of a stream are the texts between its markers: what precedes the
  first marker, then the records of what follows that marker; a last text without a
  marker is a record too.
\<close>

definition fold_case :: "string \<Rightarrow> string" where
  "fold_case s = map lower_byte s"

definition at_marker :: "string \<Rightarrow> bool" where
  "at_marker s = (fold_case (take 5 s) = ''<eor>'')"

fun marker_count :: "string \<Rightarrow> nat" where
  "marker_count [] = 0"
| "marker_count (c # cs) = (if at_marker (c # cs) then 1 else 0) + marker_count cs"

fun first_marker :: "string \<Rightarrow> nat option" where
  "first_marker [] = None"
| "first_marker (c # cs) =
     (if at_marker (c # cs) then Some 0 else map_option Suc (first_marker cs))"

lemma first_marker_le: "first_marker s = Some i \<Longrightarrow> i + 5 \<le> length s"
proof (induction s arbitrary: i)
  case Nil
  then show ?case by simp
next
  case (Cons c cs)
  show ?case
  proof (cases "at_marker (c # cs)")
    case True
    then have "length (fold_case (take 5 (c # cs))) = 5"
      by (simp add: at_marker_def)
    then have "5 \<le> length (c # cs)"
      by (simp add: fold_case_def)
    with True Cons.prems show ?thesis by simp
  next
    case False
    with Cons show ?thesis by auto
  qed
qed

function records_of :: "string \<Rightarrow> string list" where
  "records_of s =
     (case first_marker s of
        Some i \<Rightarrow> take i s # records_of (drop (i + 5) s)
      | None \<Rightarrow> if s = [] then [] else [s])"
  by pat_completeness auto

termination records_of
proof (relation "measure length", goal_cases)
  case 1
  then show ?case by simp
next
  case 2
  then show ?case using first_marker_le by fastforce
qed

declare records_of.simps [simp del]

text \<open>
  A stream is well formed when it is ASCII text in which every record is terminated (it
  is empty or ends with the marker) and no record with its marker is longer than the
  maximum token size. The stream itself may have any length.
\<close>

definition terminated :: "string \<Rightarrow> bool" where
  "terminated s = (s = [] \<or> at_marker (drop (length s - 5) s))"

definition fits :: "string \<Rightarrow> bool" where
  "fits r = (int (length r) + 5 \<le> maxTokenSize)"

definition well_formed :: "string \<Rightarrow> bool" where
  "well_formed body = (is_ascii body \<and> terminated body \<and> list_all fits (records_of body))"

text \<open>A stream of \<open>n\<close> short records.\<close>

definition short_records :: "nat \<Rightarrow> string" where
  "short_records n = concat (replicate n ''<call:1>a<eor>'')"

text \<open>What the proofs keep of a scanner on such a stream: after the end of the input
  nothing is left to read, the held bytes lie inside the buffer, and the bytes still to
  be processed are ASCII text whose records fit.\<close>

definition scan_inv :: "scanner \<Rightarrow> bool" where
  "scan_inv s =
     ((at_eof s \<longrightarrow> rest s = []) \<and> 0 \<le> start s \<and>
      start s + int (length (held s)) \<le> buf_len s \<and>
      is_ascii (held s @ rest s) \<and> list_all fits (records_of (held s @ rest s)))"

section \<open>Parse\<close>

text \<open>The header test of \<open>Parse\<close>: in a fragment whose lower-cased copy holds the
  end-of-header marker at \<open>idx\<close>, the fragment is cut by the slice expression
  \<open>text[idx+5:]\<close>, which panics when \<open>idx + 5\<close> exceeds the length of the fragment.\<close>

definition strip_header :: "case_table \<Rightarrow> string \<Rightarrow> fault + string" where
  "strip_header L text =
     (case Index (ToLower L text) ''<eoh>'' of
        Some idx \<Rightarrow> slice text (int idx + 5) (int (length text))
      | None \<Rightarrow> Inr text)"

text \<open>The end-of-header marker stands at the head of a text, in any case.\<close>

definition at_eoh :: "string \<Rightarrow> bool" where
  "at_eoh s = (fold_case (take 5 s) = ''<eoh>'')"

text \<open>The body of the loop \<open>for scanner.Scan()\<close>, over the tokens in order.\<close>

fun parse_tokens :: "case_table \<Rightarrow> string list \<Rightarrow> Record list \<Rightarrow> fault + Record list" where
  "parse_tokens L [] records = Inr records"
| "parse_tokens L (token # tokens) records =
     (let text = TrimSpace token
      in if text = [] then parse_tokens L tokens records
         else
           (case strip_header L text of
              Inl f \<Rightarrow> Inl f
            | Inr text' \<Rightarrow>
                (case parseRecord text' of
                   Inl f \<Rightarrow> Inl f
                 | Inr rec \<Rightarrow>
                     if 0 < length rec then parse_tokens L tokens (records @ [rec])
                     else parse_tokens L tokens records)))"

text \<open>The scanner as \<open>Parse\<close> sets it up on a reader that delivers \<open>body\<close>: nothing read yet,
  and a buffer of length \<open>64 * 1024\<close> that may grow to \<open>maxTokenSize\<close>.\<close>

definition NewScanner :: "string \<Rightarrow> scanner" where
  "NewScanner body =
     \<lparr>buf_len = 64 * 1024, start = 0, held = [], rest = body, at_eof = False\<rparr>"

text \<open>\<open>Parse\<close> on that reader: a panic (\<open>Inl\<close>), the scanner's error, or the records. The
  loop body runs on each token before the scanner is asked for the next one, so a panic
  in the loop body comes before whatever ends the scan.\<close>

definition Parse :: "case_table \<Rightarrow> string \<Rightarrow> fault + (scan_error + Record list)" where
  "Parse L body =
     (case scan_tokens L (NewScanner body) of
        (tokens, e) \<Rightarrow>
          (case parse_tokens L tokens [] of
             Inl f \<Rightarrow> Inl f
           | Inr records \<Rightarrow>
               (case e of
                  Panic f \<Rightarrow> Inl f
                | ScanError err \<Rightarrow> Inr (Inl err)
                | EndOfInput \<Rightarrow> Inr (Inr records))))"

section \<open>The collector\<close>

text \<open>
  The gauges of the \<open>Collector\<close>. A gauge vector is a map from its label values to the
  gauge's value. The values are \<open>float64\<close>; the counts, which only ever grow by \<open>Inc\<close> from
  zero, are natural numbers here (exact below \<open>2^53\<close>), the time stamp is an integer and
  the duration a real number. Label values are ASCII text here, which the metrics library
  accepts (it refuses only label values that are not valid UTF-8).
\<close>

record Collector =
  qsoTotal :: "(string \<times> string, nat) gomap"
  qslTotal :: "(string \<times> string, nat) gomap"
  dxccCount :: nat
  scrapeDuration :: real
  scrapeSuccess :: nat
  lastFetch :: int
  qsoHistory :: "(string \<times> string, nat) gomap"

text \<open>\<open>WithLabelValues(...).Inc()\<close> on a gauge vector and \<open>m[k]++\<close> on a map of counts: an
  absent entry counts from zero.\<close>

definition inc :: "'k \<Rightarrow> ('k, nat) gomap \<Rightarrow> ('k, nat) gomap" where
  "inc k m = AList.update k (case map_of m k of None \<Rightarrow> 1 | Some n \<Rightarrow> n + 1) m"

text \<open>What \<open>FetchReport\<close> and \<open>io.ReadAll\<close> give to one cycle: an error of the fetch, an
  error while reading the body, or the body.\<close>

datatype report = FetchError | ReadError | Body string

text \<open>The state of the loop over the records: the collector, whose total and confirmed
  gauges the loop increments in place, and the two local aggregators.\<close>

record aggregation =
  col :: Collector
  dxccConfirmed :: "(string, bool) gomap"
  dateCounts :: "(string, nat) gomap"

text \<open>The date bucket \<open>d\<close> of a record; the empty string when there is none.\<close>

definition date_bucket :: "Record \<Rightarrow> string" where
  "date_bucket rec =
     (let ok = (map_of rec ''APP_LOTW_QSO_TIMESTAMP'' \<noteq> None);
          ts = lookup rec ''APP_LOTW_QSO_TIMESTAMP''
      in if ok \<and> 10 \<le> length ts then take 10 ts
         else
           (let qsoDateRaw = lookup rec ''QSO_DATE''
            in if length qsoDateRaw = 8
               then take 4 qsoDateRaw @ ''-'' @ take 2 (drop 4 qsoDateRaw) @ ''-'' @
                    take 2 (drop 6 qsoDateRaw)
               else []))"

text \<open>The body of \<open>for _, rec := range records\<close>.\<close>

definition record_step :: "aggregation \<Rightarrow> Record \<Rightarrow> aggregation" where
  "record_step a rec =
     (let band = lookup rec ''BAND'';
          mode = lookup rec ''MODE'';
          a1 = a\<lparr>col := (col a)\<lparr>qsoTotal := inc (band, mode) (qsoTotal (col a))\<rparr>\<rparr>;
          qslRcvd = ToUpper (lookup rec ''QSL_RCVD'');
          a2 = (if qslRcvd = ''Y''
                then
                  (let a' = a1\<lparr>col := (col a1)\<lparr>qslTotal := inc (band, mode) (qslTotal (col a1))\<rparr>\<rparr>;
                       ok = (map_of rec ''DXCC'' \<noteq> None);
                       dxcc = lookup rec ''DXCC''
                   in if ok \<and> dxcc \<noteq> []
                      then a'\<lparr>dxccConfirmed := AList.update dxcc True (dxccConfirmed a')\<rparr>
                      else a')
                else a1);
          d = date_bucket rec
      in if d \<noteq> []
         then a2\<lparr>dateCounts := inc (d @ ''|'' @ band) (dateCounts a2)\<rparr>
         else a2)"

text \<open>The body of \<open>for key, count := range dateCounts\<close>.\<close>

definition history_step :: "Collector \<Rightarrow> string \<times> nat \<Rightarrow> Collector" where
  "history_step c kv =
     (case kv of
        (key, count) \<Rightarrow>
          (let parts = Split key CHR ''|''
           in if length parts = 2
              then c\<lparr>qsoHistory := AList.update (parts ! 0, parts ! 1) count (qsoHistory c)\<rparr>
              else c))"

text \<open>The part of \<open>fetch\<close> after a successful parse.\<close>

definition publish :: "int \<Rightarrow> Record list \<Rightarrow> Collector \<Rightarrow> Collector" where
  "publish now records c =
     (let c1 = c\<lparr>scrapeSuccess := 1, lastFetch := now,
                 qsoTotal := [], qslTotal := [], qsoHistory := []\<rparr>;
          a = foldl record_step \<lparr>col = c1, dxccConfirmed = [], dateCounts = []\<rparr> records;
          c2 = (col a)\<lparr>dxccCount := length (dxccConfirmed a)\<rparr>
      in foldl history_step c2 (dateCounts a))"

text \<open>
  One cycle, \<open>Collector.fetch\<close>, on the collector \<open>c\<close>: \<open>duration\<close> is the measured time of
  the fetch, \<open>now\<close> the clock at publication, \<open>rep\<close> what the client delivered. A panic
  (\<open>Inl\<close>) ends the process.
\<close>

definition fetch ::
  "case_table \<Rightarrow> real \<Rightarrow> int \<Rightarrow> report \<Rightarrow> Collector \<Rightarrow> fault + Collector" where
  "fetch L duration now rep c =
     (let c1 = c\<lparr>scrapeDuration := duration\<rparr>
      in case rep of
           FetchError \<Rightarrow> Inr (c1\<lparr>scrapeSuccess := 0\<rparr>)
         | ReadError \<Rightarrow> Inr (c1\<lparr>scrapeSuccess := 0\<rparr>)
         | Body bodyBytes \<Rightarrow>
             (case Parse L bodyBytes of
                Inl f \<Rightarrow> Inl f
              | Inr (Inl e) \<Rightarrow> Inr (c1\<lparr>scrapeSuccess := 0\<rparr>)
              | Inr (Inr records) \<Rightarrow> Inr (publish now records c1)))"

text \<open>
  The spec's set of distinct confirmed entities, in its own words: the non-empty \<open>DXCC\<close>
  values of the records whose \<open>QSL_RCVD\<close> field is \<open>Y\<close> in either case.
\<close>

definition entity_of :: "Record \<Rightarrow> string option" where
  "entity_of rec =
     (if lookup rec ''QSL_RCVD'' = ''Y'' \<or> lookup rec ''QSL_RCVD'' = ''y''
      then (case map_of rec ''DXCC'' of
              None \<Rightarrow> None
            | Some dxcc \<Rightarrow> if dxcc = [] then None else Some dxcc)
      else None)"

definition confirmed_entities :: "Record list \<Rightarrow> string set" where
  "confirmed_entities records = set (List.map_filter entity_of records)"

section \<open>Properties of the field decoder\<close>

text \<open>
  C1. The claim: for every record string \<open>parseRecord\<close> returns a mapping without faulting,
  also when a tag's length segment parses as a negative integer. The code does not: on
  the record \<open><A:-1>\<close> the end of the data lies before its start, and the slice
  expression \<open>input[dataStart:dataEnd]\<close> panics. The panic goes through \<open>Parse\<close> and ends
  the cycle that received the record.
\<close>

theorem parseRecord_negative_length_faults:
  "parseRecord ''<A:-1>'' = Inl SliceBoundsOutOfRange \<and>
   Parse L ''<A:-1><eor>'' = Inl SliceBoundsOutOfRange \<and>
   fetch L duration now (Body ''<A:-1><eor>'') c = Inl SliceBoundsOutOfRange"
proof -
  have 1: "parseRecord ''<A:-1>'' = Inl SliceBoundsOutOfRange"
    by code_simp
  have 2: "Parse L ''<A:-1><eor>'' = Inl SliceBoundsOutOfRange"
    by code_simp
  from 1 2 show ?thesis by (simp add: fetch_def)
qed

lemma wrap64_id: "- (2 ^ 63) \<le> x \<Longrightarrow> x < 2 ^ 63 \<Longrightarrow> wrap64 x = x"
  by (simp add: wrap64_def)

text \<open>One iteration on an input whose first tag is \<open><content>\<close>, after \<open>pre\<close> and before
  \<open>post\<close>.\<close>

lemma decode_step_tag:
  fixes pre content post :: string
  assumes "CHR ''<'' \<notin> set pre" and "CHR ''>'' \<notin> set content"
  defines "input \<equiv> pre @ CHR ''<'' # content @ CHR ''>'' # post"
  defines "parts \<equiv> Split content CHR '':''"
  shows "decode_step input =
     (if length parts < 2 then Skip post
      else
        (case Atoi (parts ! 1) of
           None \<Rightarrow> Skip post
         | Some len \<Rightarrow>
             (let dataStart = int (length pre + length content + 2);
                  dataEnd0 = wrap64 (dataStart + len);
                  dataEnd = (if int (length input) < dataEnd0
                             then int (length input) else dataEnd0)
              in case slice input dataStart dataEnd of
                   Inl f \<Rightarrow> Fault f
                 | Inr v \<Rightarrow> Assign (ToUpper (hd parts)) v (drop (nat dataEnd) input))))"
proof -
  have 1: "Index input ''<'' = Some (length pre)"
    using Index_char[OF assms(1)] by (simp add: input_def)
  have 2: "Index (drop (length pre) input) ''>'' = Some (length content + 1)"
    using Index_char[of "CHR ''>''" "CHR ''<'' # content" post] assms(2)
    by (simp add: input_def)
  have 3: "take (length content + 1 + length pre - (length pre + 1)) (drop (length pre + 1) input)
      = content"
    by (simp add: input_def)
  have 4: "drop (length content + 1 + length pre + 1) input = post"
    by (simp add: input_def)
  have 5: "int (length content + 1 + length pre) + 1 = int (length pre + length content + 2)"
    by simp
  show ?thesis
    unfolding decode_step_def 1 2 option.case Let_def 3 4 5 parts_def
    by (rule refl)
qed

text \<open>
  C4. The claim: a tag whose declared non-negative length exceeds what remains after the
  closing \<open>>\<close> yields the remaining suffix as its value, and decoding does not fault.
  The code does that as long as \<open>dataStart + length\<close> does not overflow; for a declared
  length near the largest \<open>int\<close> the sum wraps to a negative \<open>dataEnd\<close>, the test
  \<open>dataEnd > len(input)\<close> fails, and the slice expression panics.
\<close>

theorem parseRecord_huge_length_faults:
  "parseRecord ''<A:9223372036854775807>x'' = Inl SliceBoundsOutOfRange \<and>
   Parse L ''<A:9223372036854775807>x<eor>'' = Inl SliceBoundsOutOfRange"
proof -
  have 1: "parseRecord ''<A:9223372036854775807>x'' = Inl SliceBoundsOutOfRange"
    by code_simp
  have 2: "Parse L ''<A:9223372036854775807>x<eor>'' = Inl SliceBoundsOutOfRange"
    by code_simp
  from 1 2 show ?thesis by simp
qed

text \<open>Below the overflow the value is the remaining suffix, and the loop ends there.\<close>

lemma decode_step_truncates:
  assumes "CHR ''<'' \<notin> set pre" and "CHR ''>'' \<notin> set content"
    and "2 \<le> length (Split content CHR '':'')"
    and "Atoi (Split content CHR '':'' ! 1) = Some len"
    and "int (length post) < len"
    and "int (length pre + length content + 2) + len < 2 ^ 63"
  shows "decode_step (pre @ CHR ''<'' # content @ CHR ''>'' # post) =
           Assign (ToUpper (hd (Split content CHR '':''))) post []"
proof -
  define input where "input = pre @ CHR ''<'' # content @ CHR ''>'' # post"
  define ds where "ds = length pre + length content + 2"
  have w: "wrap64 (int ds + len) = int ds + len"
    using assms(5,6) by (intro wrap64_id) (auto simp: ds_def)
  have l: "length input = ds + length post"
    by (simp add: input_def ds_def)
  have d: "drop ds input = post"
    by (simp add: input_def ds_def)
  have s: "slice input (int ds) (int (length input)) = Inr post"
    using d by (simp add: slice_def l)
  have "decode_step input =
      Assign (ToUpper (hd (Split content CHR '':''))) post (drop (nat (int (length input))) input)"
    using assms(3,4,5) s
    by (simp add: decode_step_tag[OF assms(1,2), of post, folded input_def ds_def] Let_def w l)
  then show ?thesis by (simp add: input_def)
qed

lemma parse_loop_truncates:
  assumes "CHR ''<'' \<notin> set pre" and "CHR ''>'' \<notin> set content"
    and "2 \<le> length (Split content CHR '':'')"
    and "Atoi (Split content CHR '':'' ! 1) = Some len"
    and "int (length post) < len"
    and "int (length pre + length content + 2) + len < 2 ^ 63"
  shows "parse_loop (pre @ CHR ''<'' # content @ CHR ''>'' # post) rec =
           Inr (AList.update (ToUpper (hd (Split content CHR '':''))) post rec)"
proof -
  have "decode_step [] = Stop"
    by (simp add: decode_step_def)
  then have "parse_loop [] r = Inr r" for r
    by (subst parse_loop_step) simp
  then show ?thesis
    by (subst parse_loop_step) (simp add: decode_step_truncates[OF assms])
qed

text \<open>
  C5. A tag at the scanning position whose content has fewer than two segments, or whose
  second segment \<open>Atoi\<close> rejects, leaves the record as it is and raises nothing, and the
  loop goes on with the text right after the tag's \<open>>\<close>: decoding \<open>pre<content>post\<close> is
  decoding \<open>post\<close>, with the same assignments, so every later tag is decoded as if the bad
  tag were absent.
\<close>

theorem malformed_tag_skipped:
  assumes "CHR ''<'' \<notin> set pre" and "CHR ''>'' \<notin> set content"
    and "length (Split content CHR '':'') < 2 \<or> Atoi (Split content CHR '':'' ! 1) = None"
  shows "parse_loop (pre @ ''<'' @ content @ ''>'' @ post) rec = parse_loop post rec \<and>
         assignments (pre @ ''<'' @ content @ ''>'' @ post) = assignments post"
proof -
  have "decode_step (pre @ CHR ''<'' # content @ CHR ''>'' # post) = Skip post"
    using assms(3) unfolding decode_step_tag[OF assms(1,2)] by auto
  then show ?thesis
    by (subst parse_loop_step, subst assignments.simps) simp
qed

theorem malformed_tag_skipped_witness:
  "parse_loop (''ab'' @ ''<'' @ ''call:x'' @ ''>'' @ ''<mode:2>CW'') [(''BAND'', ''20M'')]
     = parse_loop ''<mode:2>CW'' [(''BAND'', ''20M'')] \<and>
   parse_loop ''<mode:2>CW'' [(''BAND'', ''20M'')] = Inr [(''BAND'', ''20M''), (''MODE'', ''CW'')] \<and>
   assignments (''ab'' @ ''<'' @ ''call:x'' @ ''>'' @ ''<mode:2>CW'') = [(''MODE'', ''CW'')]"
proof -
  have 1: "CHR ''<'' \<notin> set ''ab''" by simp
  have 2: "CHR ''>'' \<notin> set ''call:x''" by simp
  have 3: "length (Split ''call:x'' CHR '':'') < 2 \<or> Atoi (Split ''call:x'' CHR '':'' ! 1) = None"
    by code_simp
  have 4: "parse_loop ''<mode:2>CW'' [(''BAND'', ''20M'')] = Inr [(''BAND'', ''20M''), (''MODE'', ''CW'')]"
    by code_simp
  have 5: "assignments ''<mode:2>CW'' = [(''MODE'', ''CW'')]"
    by code_simp
  from malformed_tag_skipped[OF 1 2 3, of "''<mode:2>CW''" "[(''BAND'', ''20M'')]"] 4 5
  show ?thesis by simp
qed

text \<open>The record that the loop returns, by the assignments it made.\<close>

lemma parse_loop_assignments:
  "parse_loop input rec = Inr r \<Longrightarrow>
   map_of r name =
     (case filter (\<lambda>(n, v). n = name) (assignments input) of
        [] \<Rightarrow> map_of rec name
      | tags \<Rightarrow> Some (snd (last tags)))"
proof (induction input arbitrary: rec rule: assignments.induct)
  case (1 input)
  show ?case
  proof (cases "decode_step input")
    case Stop
    with "1.prems" show ?thesis
      by (simp add: parse_loop_step[of input] assignments.simps[of input])
  next
    case (Skip rest)
    with "1.prems" have "parse_loop rest rec = Inr r"
      by (simp add: parse_loop_step[of input])
    from "1.IH"(1)[OF Skip this] Skip show ?thesis
      by (simp add: assignments.simps[of input])
  next
    case (Assign n v rest)
    with "1.prems" have "parse_loop rest (AList.update n v rec) = Inr r"
      by (simp add: parse_loop_step[of input])
    from "1.IH"(2)[OF Assign this] Assign show ?thesis
      by (simp add: assignments.simps[of input] update_conv' split: list.splits)
  next
    case (Fault f)
    with "1.prems" show ?thesis
      by (simp add: parse_loop_step[of input])
  qed
qed

text \<open>
  C10. When \<open>parseRecord\<close> returns, the record maps a name to the value of the last
  assignment that the loop made to that name (after upper-casing), in scan order, and to
  nothing when there was none: later tags overwrite earlier ones.
\<close>

theorem last_tag_wins:
  assumes "parseRecord record_text = Inr rec"
  shows "map_of rec name =
     (case filter (\<lambda>(n, v). n = name) (assignments record_text) of
        [] \<Rightarrow> None
      | tags \<Rightarrow> Some (snd (last tags)))"
  using parse_loop_assignments[of record_text "[]" rec name] assms
  by (simp add: parseRecord_def split: list.splits)

theorem last_tag_wins_witness:
  "parseRecord ''<call:1>x<mode:2>CW<Call:3>abc'' = Inr [(''CALL'', ''abc''), (''MODE'', ''CW'')] \<and>
   assignments ''<call:1>x<mode:2>CW<Call:3>abc'' =
     [(''CALL'', ''x''), (''MODE'', ''CW''), (''CALL'', ''abc'')] \<and>
   map_of [(''CALL'', ''abc''), (''MODE'', ''CW'')] ''CALL'' = Some ''abc''"
proof -
  have h: "parseRecord ''<call:1>x<mode:2>CW<Call:3>abc'' =
      Inr [(''CALL'', ''abc''), (''MODE'', ''CW'')]"
    by code_simp
  have a: "assignments ''<call:1>x<mode:2>CW<Call:3>abc'' =
      [(''CALL'', ''x''), (''MODE'', ''CW''), (''CALL'', ''abc'')]"
    by code_simp
  from last_tag_wins[OF h, of "''CALL''"] h a show ?thesis by simp
qed

section \<open>Properties of the tokenizer\<close>

text \<open>On ASCII text the lower-cased copy is the byte-wise one, whatever the case table.\<close>

lemma ToLower_ascii: "is_ascii s \<Longrightarrow> ToLower L s = fold_case s"
  by (simp add: ToLower_def fold_case_def)

lemma is_ascii_append: "is_ascii (a @ b) \<longleftrightarrow> is_ascii a \<and> is_ascii b"
  by (simp add: is_ascii_def)

lemma is_ascii_drop: "is_ascii s \<Longrightarrow> is_ascii (drop n s)"
  by (auto simp: is_ascii_def list_all_iff dest: in_set_dropD)

lemma length_fold_case [simp]: "length (fold_case s) = length s"
  by (simp add: fold_case_def)

lemma fold_case_append: "fold_case (a @ b) = fold_case a @ fold_case b"
  by (simp add: fold_case_def)

lemma fold_case_take: "fold_case (take n s) = take n (fold_case s)"
  by (simp add: fold_case_def take_map)

lemma fold_case_drop: "fold_case (drop n s) = drop n (fold_case s)"
  by (simp add: fold_case_def drop_map)

lemma Index_append:
  assumes "Index h sub = Some i"
  shows "Index (h @ r) sub = Some i"
proof (rule Index_eqI)
  from Index_le[OF assms] Index_at[OF assms]
  show "take (length sub) (drop i (h @ r)) = sub" by simp
next
  fix j assume j: "j < i"
  with Index_le[OF assms] have "j + length sub \<le> length h" by simp
  then have eq: "take (length sub) (drop j (h @ r)) = take (length sub) (drop j h)" by simp
  show "take (length sub) (drop j (h @ r)) \<noteq> sub"
    unfolding eq by (rule Index_first[OF assms j])
qed

text \<open>The position that the split function looks for is the first position at which the
  marker stands.\<close>

lemma Index_eor: "Index (fold_case s) ''<eor>'' = first_marker s"
proof (induction s)
  case Nil
  then show ?case by (simp add: fold_case_def)
next
  case (Cons c cs)
  have "Index (fold_case (c # cs)) ''<eor>'' =
      (if at_marker (c # cs) then Some 0 else map_option Suc (Index (fold_case cs) ''<eor>''))"
    by (simp add: fold_case_def at_marker_def take_map eval_nat_numeral)
  with Cons show ?case by simp
qed

lemma eor_length: "length ''<eor>'' = 5"
  by simp

lemma at_marker_drop: "at_marker (drop i s) \<longleftrightarrow> take 5 (drop i (fold_case s)) = ''<eor>''"
  by (simp add: at_marker_def fold_case_take fold_case_drop)

lemma at_marker_length: "at_marker s \<Longrightarrow> 5 \<le> length s"
proof -
  assume "at_marker s"
  then have "length (fold_case (take 5 s)) = length ''<eor>''"
    by (simp only: at_marker_def)
  then show ?thesis by simp
qed

lemma at_marker_take: "at_marker (take n s) \<longleftrightarrow> at_marker s \<and> 5 \<le> n"
proof (cases "5 \<le> n")
  case True
  then have "take 5 (take n s) = take 5 s" by (simp add: min_def)
  with True show ?thesis by (simp add: at_marker_def)
next
  case False
  then have "length (take n s) < 5" by simp
  with at_marker_length[of "take n s"] False show ?thesis by auto
qed

lemma at_marker_cases:
  assumes "at_marker s"
  obtains c0 c1 c2 c3 c4 r where "s = c0 # c1 # c2 # c3 # c4 # r"
    and "lower_byte c0 = CHR ''<''" and "lower_byte c1 = CHR ''e''"
    and "lower_byte c2 = CHR ''o''" and "lower_byte c3 = CHR ''r''"
    and "lower_byte c4 = CHR ''>''"
proof -
  from at_marker_length[OF assms] obtain c0 c1 c2 c3 c4 r where s: "s = c0 # c1 # c2 # c3 # c4 # r"
    by (cases s; cases "tl s"; cases "tl (tl s)"; cases "tl (tl (tl s))";
        cases "tl (tl (tl (tl s)))") auto
  with assms that show ?thesis
    by (simp add: at_marker_def fold_case_def)
qed

lemma at_marker_no_overlap:
  assumes "at_marker s" and "0 < k" and "k < 5"
  shows "\<not> at_marker (drop k s)"
proof -
  from assms(1) obtain c0 c1 c2 c3 c4 r where s: "s = c0 # c1 # c2 # c3 # c4 # r"
    and l: "lower_byte c0 = CHR ''<''" "lower_byte c1 = CHR ''e''"
    "lower_byte c2 = CHR ''o''" "lower_byte c3 = CHR ''r''" "lower_byte c4 = CHR ''>''"
    by (rule at_marker_cases)
  from assms(2,3) consider "k = 1" | "k = 2" | "k = 3" | "k = 4" by linarith
  then show ?thesis
    using l by cases (auto simp: s at_marker_def fold_case_def dest: at_marker_length)
qed

lemma first_marker_at:
  assumes "first_marker s = Some i"
  shows "at_marker (drop i s)"
  unfolding at_marker_drop
  by (rule Index_at[of "fold_case s" "''<eor>''" i, unfolded eor_length Index_eor, OF assms])

lemma first_marker_first:
  assumes "first_marker s = Some i" and "j < i"
  shows "\<not> at_marker (drop j s)"
  unfolding at_marker_drop
  by (rule Index_first[of "fold_case s" "''<eor>''" i j, unfolded eor_length Index_eor, OF assms])

lemma first_marker_None:
  assumes "first_marker s = None"
  shows "\<not> at_marker (drop j s)"
  unfolding at_marker_drop
  by (rule Index_None[of "fold_case s" "''<eor>''" j, unfolded eor_length Index_eor, OF assms])

lemma first_marker_append:
  assumes "first_marker h = Some i"
  shows "first_marker (h @ r) = Some i"
  using Index_append[of "fold_case h" "''<eor>''" i "fold_case r"] assms
  by (simp add: Index_eor fold_case_append[symmetric])

lemma marker_count_None: "first_marker s = None \<Longrightarrow> marker_count s = 0"
  by (induction s) (auto split: if_splits)

lemma marker_count_token: "first_marker s = Some i \<Longrightarrow> marker_count (take i s) = 0"
proof (induction s arbitrary: i)
  case Nil
  then show ?case by simp
next
  case (Cons c cs)
  show ?case
  proof (cases "at_marker (c # cs)")
    case True
    with Cons.prems have "i = 0" by simp
    then show ?thesis by simp
  next
    case False
    with Cons.prems obtain j where j: "first_marker cs = Some j" "i = Suc j"
      by auto
    have "\<not> at_marker (c # take j cs)"
      using at_marker_take[of "Suc j" "c # cs"] False by simp
    with Cons.IH[OF j(1)] j(2) show ?thesis by simp
  qed
qed

lemma marker_count_rest:
  "first_marker s = Some i \<Longrightarrow> marker_count s = Suc (marker_count (drop (i + 5) s))"
proof (induction s arbitrary: i)
  case Nil
  then show ?case by simp
next
  case (Cons c cs)
  show ?case
  proof (cases "at_marker (c # cs)")
    case True
    with Cons.prems have i: "i = 0" by simp
    from True obtain c0 c1 c2 c3 c4 r where s: "c # cs = c0 # c1 # c2 # c3 # c4 # r"
      and l: "lower_byte c0 = CHR ''<''" "lower_byte c1 = CHR ''e''"
      "lower_byte c2 = CHR ''o''" "lower_byte c3 = CHR ''r''" "lower_byte c4 = CHR ''>''"
      by (rule at_marker_cases)
    have "marker_count (c0 # c1 # c2 # c3 # c4 # r) = Suc (marker_count r)"
      using l True[unfolded s]
      by (simp add: at_marker_def fold_case_def)
    with s i show ?thesis by simp
  next
    case False
    with Cons.prems obtain j where j: "first_marker cs = Some j" "i = Suc j"
      by auto
    from Cons.IH[OF j(1)] False
    have "marker_count (c # cs) = Suc (marker_count (drop (j + 5) cs))" by simp
    moreover have "drop (Suc (j + 5)) (c # cs) = drop (j + 5) cs" by (rule drop_Suc_Cons)
    then have "drop (i + 5) (c # cs) = drop (j + 5) cs" using j(2) by (simp only: add_Suc)
    ultimately show ?thesis by (simp only:)
  qed
qed

lemma terminated_first_marker:
  assumes "terminated s" and "s \<noteq> []"
  shows "\<exists>i. first_marker s = Some i"
proof (cases "first_marker s")
  case None
  from first_marker_None[OF this] assms show ?thesis by (auto simp: terminated_def)
next
  case (Some i)
  then show ?thesis by simp
qed

lemma terminated_rest:
  assumes "terminated s" and "first_marker s = Some i"
  shows "terminated (drop (i + 5) s)"
proof -
  define p where "p = length s - 5"
  from first_marker_le[OF assms(2)] have len: "i + 5 \<le> length s" .
  then have "s \<noteq> []" by auto
  with assms(1) have m: "at_marker (drop p s)" by (simp add: terminated_def p_def)
  have ip: "i \<le> p"
    using first_marker_first[OF assms(2), of p] m by (cases "p < i") auto
  show ?thesis
  proof (cases "i = p")
    case True
    with len show ?thesis by (simp add: terminated_def p_def)
  next
    case False
    with ip have k: "0 < p - i" by simp
    have "\<not> p - i < 5"
    proof
      assume "p - i < 5"
      from at_marker_no_overlap[OF first_marker_at[OF assms(2)] k this] ip m
      show False by simp
    qed
    with len have far: "i + 10 \<le> length s" by (simp add: p_def)
    then have "length (drop (i + 5) s) - 5 + (i + 5) = p" by (simp add: p_def)
    then have "drop (length (drop (i + 5) s) - 5) (drop (i + 5) s) = drop p s"
      by (simp only: drop_drop)
    with m show ?thesis by (simp only: terminated_def) simp
  qed
qed

text \<open>The records of a stream in which every record is terminated: as many as there are
  markers, and none holds a marker.\<close>

lemma records_of_Some:
  "first_marker s = Some i \<Longrightarrow> records_of s = take i s # records_of (drop (i + 5) s)"
  by (subst records_of.simps) simp

lemma records_of_None: "first_marker s = None \<Longrightarrow> records_of s = (if s = [] then [] else [s])"
  by (subst records_of.simps) simp

lemma records_of_counts:
  "terminated s \<Longrightarrow>
   length (records_of s) = marker_count s \<and> (\<forall>t\<in>set (records_of s). marker_count t = 0)"
proof (induction s rule: records_of.induct)
  case (1 s)
  show ?case
  proof (cases "s = []")
    case True
    then show ?thesis by (simp add: records_of_None)
  next
    case False
    with terminated_first_marker[OF "1.prems"] obtain i where
      i: "first_marker s = Some i" by blast
    from "1.IH"[OF i terminated_rest[OF "1.prems" i]]
      marker_count_rest[OF i] marker_count_token[OF i]
    show ?thesis by (simp add: records_of_Some[OF i])
  qed
qed

text \<open>The split function on ASCII data.\<close>

lemma splitEOR_ascii:
  "is_ascii d \<Longrightarrow>
   splitEOR L d cap e =
     (if e \<and> d = [] then Inr (0, None)
      else
        (case first_marker d of
           Some idx \<Rightarrow>
             if cap < int idx then Inl SliceBoundsOutOfRange
             else Inr (idx + 5, Some (take idx d))
         | None \<Rightarrow> if e then Inr (length d, Some d) else Inr (0, None)))"
  by (simp add: splitEOR_def ToLower_ascii Index_eor)

text \<open>Held bytes without a marker are the beginning of one record, and shorter than the
  maximum token size when that record fits.\<close>

lemma first_record_fits:
  assumes "list_all fits (records_of d)" and "first_marker d = Some i"
  shows "int i + 5 \<le> maxTokenSize"
proof -
  from first_marker_le[OF assms(2)] have "length (take i d) = i" by simp
  moreover from assms have "fits (take i d)"
    by (simp add: records_of_Some)
  ultimately show ?thesis by (simp only: fits_def)
qed

lemma held_small:
  assumes "list_all fits (records_of (h @ r))" and "first_marker h = None"
  shows "int (length h) < maxTokenSize"
proof (cases "first_marker (h @ r)")
  case None
  show ?thesis
  proof (cases "h = []")
    case True
    then show ?thesis by (simp add: maxTokenSize_def)
  next
    case False
    with assms(1) None have "fits (h @ r)"
      by (simp add: records_of_None)
    then show ?thesis by (simp add: fits_def)
  qed
next
  case (Some i)
  from first_record_fits[OF assms(1) Some] have f: "int i + 5 \<le> maxTokenSize" .
  have "length h < i + 5"
  proof (rule ccontr)
    assume "\<not> length h < i + 5"
    then have le: "i + 5 \<le> length h" by simp
    from first_marker_at[OF Some] have "take 5 (drop i (fold_case (h @ r))) = ''<eor>''"
      by (simp only: at_marker_drop)
    with le have "take 5 (drop i (fold_case h)) = ''<eor>''"
      by (simp add: fold_case_append)
    then have "at_marker (drop i h)" by (simp add: at_marker_drop)
    with first_marker_None[OF assms(2)] show False by blast
  qed
  with f show ?thesis by simp
qed

text \<open>Reading more succeeds as long as the held bytes are fewer than the maximum token
  size: a full buffer then holds them from its beginning and can grow.\<close>

lemma read_more_ok:
  assumes "scan_inv s" and "\<not> at_eof s" and small: "int (length (held s)) < maxTokenSize"
  shows "\<exists>s2. read_more s = Inr s2 \<and> scan_inv s2 \<and> held s2 @ rest s2 = held s @ rest s"
proof -
  define s1 where "s1 = shift s"
  have s1: "held s1 = held s" "rest s1 = rest s" "at_eof s1 = at_eof s" "buf_len s1 = buf_len s"
    "0 \<le> start s1" "start s1 + int (length (held s1)) \<le> buf_len s1"
    "start s1 + int (length (held s1)) = buf_len s1 \<longrightarrow> start s1 = 0"
    using assms(1) by (auto simp: s1_def shift_def scan_inv_def)
  from assms(1) have data: "is_ascii (held s @ rest s)"
    "list_all fits (records_of (held s @ rest s))"
    by (simp_all add: scan_inv_def)
  obtain s' where g: "grow s1 = Inr s'"
    and s': "held s' = held s" "rest s' = rest s" "at_eof s' = at_eof s"
      "0 \<le> start s'" "start s' + int (length (held s')) < buf_len s'"
  proof (cases "start s1 + int (length (held s1)) = buf_len s1")
    case True
    with s1 have z: "start s1 = 0" "int (length (held s)) = buf_len s1" by auto
    with small have lt: "buf_len s1 < maxTokenSize" by simp
    then have "\<not> (maxTokenSize \<le> buf_len s1 \<or> maxInt div 2 < buf_len s1)"
      by (simp add: maxTokenSize_def maxInt_def)
    with True have "grow s1 = Inr (s1\<lparr>buf_len := min (if buf_len s1 * 2 = 0 then startBufSize else buf_len s1 * 2) maxTokenSize, start := 0\<rparr>)"
      by (simp add: grow_def Let_def)
    moreover have "int (length (held s)) < min (if buf_len s1 * 2 = 0 then startBufSize else buf_len s1 * 2) maxTokenSize"
      using z lt by (auto simp: startBufSize_def maxTokenSize_def)
    ultimately show ?thesis using that s1 by simp
  next
    case False
    then have "grow s1 = Inr s1" by (simp add: grow_def)
    with False s1 that show ?thesis by simp
  qed
  show ?thesis
  proof (cases "rest s = []")
    case True
    with s' have "read s' = Inr (s'\<lparr>at_eof := True\<rparr>)" by (simp add: read_def)
    with g s' True data show ?thesis
      by (simp add: read_more_def s1_def[symmetric] scan_inv_def)
  next
    case False
    define n where "n = nat (min (buf_len s' - (start s' + int (length (held s')))) (int (length (rest s'))))"
    from False s' have n: "0 < n" "n \<le> length (rest s)"
      "int n \<le> buf_len s' - (start s' + int (length (held s')))"
      by (auto simp: n_def)
    from False s' have rne: "rest s' \<noteq> []" by simp
    have "read s' = Inr (s'\<lparr>held := held s' @ take n (rest s'), rest := drop n (rest s')\<rparr>)"
      unfolding read_def Let_def n_def[symmetric] using rne n(1) by simp
    with g s' n data assms(2) show ?thesis
      by (simp add: read_more_def s1_def[symmetric] scan_inv_def)
  qed
qed

text \<open>The scanner yields the records of the stream, and stops at the end of the input.\<close>

lemma scan_tokens_eq:
  "scan_inv s \<Longrightarrow> scan_tokens L s = (records_of (held s @ rest s), EndOfInput)"
proof (induction L s rule: scan_tokens.induct)
  case (1 L s)
  note inv = "1.prems"
  from inv have asc: "is_ascii (held s)"
    and fit: "list_all fits (records_of (held s @ rest s))"
    and cap: "int (length (held s)) \<le> buf_len s - start s"
    and eofr: "at_eof s \<longrightarrow> rest s = []"
    by (auto simp: scan_inv_def is_ascii_append)
  show ?case
  proof (cases "held s \<noteq> [] \<or> at_eof s")
    case False
    then have ts: "try_split L s = Inr (None, s)" and ne: "\<not> at_eof s"
      and small: "int (length (held s)) < maxTokenSize"
      by (simp_all add: try_split_def maxTokenSize_def)
    from read_more_ok[OF inv ne small] obtain s2 where
      s2: "read_more s = Inr s2" "scan_inv s2" "held s2 @ rest s2 = held s @ rest s" by blast
    from "1.IH"(1)[OF ts refl refl ne s2(1) s2(2)] s2(3) ts ne s2(1)
    show ?thesis by (subst scan_tokens.simps) simp
  next
    case True
    show ?thesis
    proof (cases "first_marker (held s)")
      case (Some i)
      from first_marker_le[OF Some] have il: "i + 5 \<le> length (held s)" .
      with cap have "\<not> buf_len s - start s < int i" by simp
      with Some il have sp: "splitEOR L (held s) (buf_len s - start s) (at_eof s) =
          Inr (i + 5, Some (take i (held s)))"
        by (auto simp: splitEOR_ascii[OF asc])
      define s1 where "s1 = s\<lparr>start := start s + int (i + 5), held := drop (i + 5) (held s)\<rparr>"
      from True sp il have ts: "try_split L s = Inr (Some (take i (held s)), s1)"
        by (simp add: try_split_def s1_def)
      have data: "held s1 @ rest s1 = drop (i + 5) (held s @ rest s)"
        using il by (simp add: s1_def)
      from records_of_Some[OF first_marker_append[OF Some, of "rest s"]] il
      have rec: "records_of (held s @ rest s) = take i (held s) # records_of (held s1 @ rest s1)"
        by (simp add: data)
      from inv have "is_ascii (drop (i + 5) (held s @ rest s))"
        by (intro is_ascii_drop) (simp add: scan_inv_def)
      then have "is_ascii (held s1 @ rest s1)"
        by (simp only: data)
      with inv il fit rec have inv1: "scan_inv s1"
        by (auto simp: scan_inv_def s1_def)
      from "1.IH"(2)[OF ts refl refl inv1] ts rec
      show ?thesis by (subst scan_tokens.simps) simp
    next
      case None
      from held_small[OF fit None] have small: "int (length (held s)) < maxTokenSize" .
      show ?thesis
      proof (cases "at_eof s")
        case eof: True
        with eofr have r: "rest s = []" by simp
        show ?thesis
        proof (cases "held s = []")
          case True
          with eof have "try_split L s = Inr (None, s)"
            by (simp add: try_split_def splitEOR_def)
          with eof r True show ?thesis
            by (subst scan_tokens.simps) (simp add: records_of.simps)
        next
          case False
          define s1 where "s1 = s\<lparr>start := start s + int (length (held s)), held := []\<rparr>"
          from False eof None have sp: "splitEOR L (held s) (buf_len s - start s) (at_eof s) =
              Inr (length (held s), Some (held s))"
            by (simp add: splitEOR_ascii[OF asc])
          with eof have ts: "try_split L s = Inr (Some (held s), s1)"
            by (simp add: try_split_def s1_def)
          from inv r have inv1: "scan_inv s1"
            by (simp add: scan_inv_def s1_def records_of.simps is_ascii_def)
          from r None False have rec: "records_of (held s @ rest s) = [held s]"
            by (simp add: records_of_None)
          from "1.IH"(2)[OF ts refl refl inv1] ts rec r
          show ?thesis
            by (subst scan_tokens.simps) (simp add: s1_def records_of.simps)
        qed
      next
        case ne: False
        with None have "splitEOR L (held s) (buf_len s - start s) (at_eof s) = Inr (0, None)"
          by (simp add: splitEOR_ascii[OF asc])
        with True have ts: "try_split L s = Inr (None, s)"
          by (simp add: try_split_def)
        from read_more_ok[OF inv ne small] obtain s2 where
          s2: "read_more s = Inr s2" "scan_inv s2" "held s2 @ rest s2 = held s @ rest s" by blast
        from "1.IH"(1)[OF ts refl refl ne s2(1) s2(2)] s2(3) ts ne s2(1)
        show ?thesis by (subst scan_tokens.simps) simp
      qed
    qed
  qed
qed

lemma scan_inv_NewScanner:
  "is_ascii body \<Longrightarrow> list_all fits (records_of body) \<Longrightarrow> scan_inv (NewScanner body)"
  by (simp add: scan_inv_def NewScanner_def)

text \<open>Streams of any length are well formed: \<open>short_records n\<close> has \<open>14 * n\<close> bytes.\<close>

lemma short_records_Suc: "short_records (Suc n) = ''<call:1>a<eor>'' @ short_records n"
  by (simp add: short_records_def)

lemma short_records_length: "length (short_records n) = 14 * n"
  by (induction n) (simp_all add: short_records_def)

lemma short_records_ascii: "is_ascii (short_records n)"
proof (induction n)
  case 0
  then show ?case by (simp add: short_records_def is_ascii_def)
next
  case (Suc n)
  have "is_ascii ''<call:1>a<eor>''" by code_simp
  with Suc show ?case by (simp only: short_records_Suc is_ascii_append)
qed

lemma short_records_first: "first_marker (''<call:1>a<eor>'' @ s) = Some 9"
proof -
  have "first_marker ''<call:1>a<eor>'' = Some 9" by code_simp
  then show ?thesis by (rule first_marker_append)
qed

lemma short_records_records: "records_of (short_records n) = replicate n ''<call:1>a''"
proof (induction n)
  case 0
  then show ?case by (simp add: short_records_def records_of_None)
next
  case (Suc n)
  have "records_of (short_records (Suc n)) =
      take 9 (short_records (Suc n)) # records_of (drop (9 + 5) (short_records (Suc n)))"
    unfolding short_records_Suc by (rule records_of_Some[OF short_records_first])
  with Suc show ?case by (simp add: short_records_Suc)
qed

lemma short_records_terminated: "terminated (short_records n)"
proof (cases n)
  case 0
  then show ?thesis by (simp add: terminated_def short_records_def)
next
  case (Suc m)
  have "replicate (Suc m) ''<call:1>a<eor>'' = replicate m ''<call:1>a<eor>'' @ [''<call:1>a<eor>'']"
    by (simp add: replicate_append_same)
  then have "short_records (Suc m) = short_records m @ ''<call:1>a<eor>''"
    by (simp only: short_records_def concat_append) simp
  moreover have "at_marker ''<eor>''" by code_simp
  ultimately show ?thesis using Suc
    by (simp add: terminated_def)
qed

lemma short_records_well_formed: "well_formed (short_records n)"
proof -
  have "fits ''<call:1>a''" by (simp add: fits_def maxTokenSize_def)
  then have "list_all fits (replicate n ''<call:1>a'')"
    by (simp add: list_all_iff)
  then show ?thesis
    by (simp only: well_formed_def short_records_ascii short_records_terminated
        short_records_records simp_thms)
qed

text \<open>
  C3. On a well-formed stream, that is ASCII text of any length that is empty or ends
  with the marker and in which no record with its marker is longer than the maximum
  token size, the scanner stops at the end of the input, without an error, and yields
  exactly as many tokens as the stream has end-of-record markers, and no token holds a
  marker. (Text after the last marker, even a line break, is one more token.)
\<close>

theorem tokenizer_counts_markers:
  assumes "well_formed body"
  shows "\<exists>tokens. scan_tokens L (NewScanner body) = (tokens, EndOfInput) \<and>
           length tokens = marker_count body \<and>
           (\<forall>t\<in>set tokens. marker_count t = 0)"
proof -
  from assms have "scan_inv (NewScanner body)" and t: "terminated body"
    by (simp_all add: well_formed_def scan_inv_NewScanner)
  from scan_tokens_eq[OF this(1)]
  have "scan_tokens L (NewScanner body) = (records_of body, EndOfInput)"
    by (simp add: NewScanner_def)
  with records_of_counts[OF t] show ?thesis by simp
qed

theorem tokenizer_counts_markers_witness:
  "well_formed ''<call:1>a <eor><call:1>b<EOR><eOr>'' \<and>
   (\<forall>L. scan_tokens L (NewScanner ''<call:1>a <eor><call:1>b<EOR><eOr>'')
     = ([''<call:1>a '', ''<call:1>b'', ''''], EndOfInput)) \<and>
   marker_count ''<call:1>a <eor><call:1>b<EOR><eOr>'' = 3 \<and>
   (\<forall>L n. well_formed (short_records n) \<and> length (short_records n) = 14 * n \<and>
      (\<exists>tokens. scan_tokens L (NewScanner (short_records n)) = (tokens, EndOfInput) \<and>
         length tokens = marker_count (short_records n))) \<and>
   maxTokenSize < int (length (short_records 4000000))"
proof -
  have w: "well_formed ''<call:1>a <eor><call:1>b<EOR><eOr>''"
    by code_simp
  have s: "scan_tokens L (NewScanner ''<call:1>a <eor><call:1>b<EOR><eOr>'')
     = ([''<call:1>a '', ''<call:1>b'', ''''], EndOfInput)" for L
    by code_simp
  have l: "\<exists>tokens. scan_tokens L (NewScanner (short_records n)) = (tokens, EndOfInput) \<and>
         length tokens = marker_count (short_records n)" for L n
    using tokenizer_counts_markers[OF short_records_well_formed, of L n] by blast
  have b: "maxTokenSize < int (length (short_records 4000000))"
    by (simp add: short_records_length maxTokenSize_def)
  from tokenizer_counts_markers[OF w] s
  have m: "marker_count ''<call:1>a <eor><call:1>b<EOR><eOr>'' = 3"
    by auto
  from w s m l b show ?thesis
    by (simp only: short_records_well_formed short_records_length simp_thms)
qed

text \<open>The ASCII hypothesis is needed: with one byte from 128 up before the marker, the
  marker's position in the lower-cased copy lies two bytes further than in the data, the
  token takes the first two bytes of the marker, and the scanner refuses the advance.\<close>

lemma tokenizer_non_ascii:
  "terminated (CHR 0xE9 # ''<eor>'') \<and> marker_count (CHR 0xE9 # ''<eor>'') = 1 \<and>
   scan_tokens L (NewScanner (CHR 0xE9 # ''<eor>'')) = ([], ScanError ErrAdvanceTooFar)"
proof -
  have 1: "terminated (CHR 0xE9 # ''<eor>'')" by code_simp
  have 2: "marker_count (CHR 0xE9 # ''<eor>'') = 1" by code_simp
  have 3: "scan_tokens L (NewScanner (CHR 0xE9 # ''<eor>'')) = ([], ScanError ErrAdvanceTooFar)"
    by code_simp
  from 1 2 3 show ?thesis by (simp only: simp_thms)
qed

section \<open>Properties of the header test\<close>

lemma eoh_length: "length ''<eoh>'' = 5"
  by simp

lemma at_eoh_drop: "at_eoh (drop i s) \<longleftrightarrow> take 5 (drop i (fold_case s)) = ''<eoh>''"
  by (simp add: at_eoh_def fold_case_take fold_case_drop)

lemma eoh_first:
  assumes "Index (fold_case s) ''<eoh>'' = Some i"
  shows "at_eoh (drop i s) \<and> (\<forall>j<i. \<not> at_eoh (drop j s))"
  unfolding at_eoh_drop
  using Index_at[OF assms, unfolded eoh_length] Index_first[OF assms, unfolded eoh_length]
  by blast

lemma eoh_none:
  assumes "Index (fold_case s) ''<eoh>'' = None"
  shows "\<forall>j. \<not> at_eoh (drop j s)"
  unfolding at_eoh_drop
  using Index_None[OF assms, unfolded eoh_length] by blast

text \<open>
  In an ASCII fragment the header test finds the first position at which the
  end-of-header marker stands, wherever that is, and the fragment loses everything up to
  and including the marker; a fragment in which the marker stands nowhere is left as it
  is.
\<close>

lemma strip_header_ascii:
  assumes "is_ascii fragment"
  shows "(at_eoh (drop i fragment) \<and> (\<forall>j<i. \<not> at_eoh (drop j fragment)) \<longrightarrow>
            strip_header L fragment = Inr (drop (i + 5) fragment)) \<and>
         ((\<forall>j. \<not> at_eoh (drop j fragment)) \<longrightarrow> strip_header L fragment = Inr fragment)"
proof (intro conjI impI)
  assume a: "at_eoh (drop i fragment) \<and> (\<forall>j<i. \<not> at_eoh (drop j fragment))"
  have idx: "Index (fold_case fragment) ''<eoh>'' = Some i"
  proof (rule Index_eqI)
    from a show "take (length ''<eoh>'') (drop i (fold_case fragment)) = ''<eoh>''"
      by (simp only: eoh_length at_eoh_drop)
  next
    fix j assume "j < i"
    with a have "\<not> at_eoh (drop j fragment)" by blast
    then show "take (length ''<eoh>'') (drop j (fold_case fragment)) \<noteq> ''<eoh>''"
      unfolding eoh_length at_eoh_drop[symmetric] .
  qed
  from Index_le[OF idx] have "i + 5 \<le> length fragment" by simp
  with idx show "strip_header L fragment = Inr (drop (i + 5) fragment)"
    by (simp add: strip_header_def ToLower_ascii[OF assms] slice_def nat_add_distrib)
next
  assume n: "\<forall>j. \<not> at_eoh (drop j fragment)"
  have "Index (fold_case fragment) ''<eoh>'' = None"
  proof (cases "Index (fold_case fragment) ''<eoh>''")
    case None
    then show ?thesis .
  next
    case (Some k)
    from eoh_first[OF Some] n show ?thesis by blast
  qed
  then show "strip_header L fragment = Inr fragment"
    by (simp add: strip_header_def ToLower_ascii[OF assms])
qed

lemma strip_header_ascii_example:
  "strip_header L ''ADIF export <EoH><call:1>x'' = Inr ''<call:1>x'' \<and>
   strip_header L ''<call:1>x <mode:2>CW'' = Inr ''<call:1>x <mode:2>CW'' \<and>
   Parse L ''<programid:4>LoTW <EoH><call:1>x<eor><call:1>y<eor>''
     = Inr (Inr [[(''CALL'', ''x'')], [(''CALL'', ''y'')]])"
proof -
  have 1: "strip_header L ''ADIF export <EoH><call:1>x'' = Inr ''<call:1>x''" by code_simp
  have 2: "strip_header L ''<call:1>x <mode:2>CW'' = Inr ''<call:1>x <mode:2>CW''" by code_simp
  have 3: "Parse L ''<programid:4>LoTW <EoH><call:1>x<eor><call:1>y<eor>''
     = Inr (Inr [[(''CALL'', ''x'')], [(''CALL'', ''y'')]])"
    by code_simp
  from 1 2 3 show ?thesis by (simp only: simp_thms)
qed

text \<open>
  C6. The claim: in any fragment in which the end-of-header marker stands, the header
  test finds it, wherever it stands, and only the text after the marker is decoded. The
  code does that on ASCII fragments. On a fragment with a byte from 128 up before the
  marker it does not: the position \<open>idx\<close> is found in the lower-cased copy, in which an
  invalid byte has become the three bytes of \<open>U+FFFD\<close>, and is used on the fragment
  itself. In the fragment \<open>FF FF <eoh>\<close> the marker stands at position 2, \<open>idx\<close> is 6, and
  \<open>text[idx+5:]\<close> panics on a text of 7 bytes; the panic goes through \<open>Parse\<close> and ends the
  cycle. In the Latin-1 header \<open>Op E9 rateur <eoh><call:5>K1ABC\<close> the marker stands at
  position 10, \<open>idx\<close> is 12, the cut takes two bytes of the record, and the record is
  lost.
\<close>

theorem strip_header_non_ascii_faults:
  "at_eoh (drop 2 (CHR 0xFF # CHR 0xFF # ''<eoh>'')) \<and>
   strip_header L (CHR 0xFF # CHR 0xFF # ''<eoh>'') = Inl SliceBoundsOutOfRange \<and>
   Parse L (CHR 0xFF # CHR 0xFF # ''<eoh>'') = Inl SliceBoundsOutOfRange \<and>
   fetch L duration now (Body (CHR 0xFF # CHR 0xFF # ''<eoh>'')) c = Inl SliceBoundsOutOfRange \<and>
   at_eoh (drop 10 (''Op'' @ CHR 0xE9 # ''rateur <eoh><call:5>K1ABC'')) \<and>
   drop (10 + 5) (''Op'' @ CHR 0xE9 # ''rateur <eoh><call:5>K1ABC'') = ''<call:5>K1ABC'' \<and>
   strip_header L (''Op'' @ CHR 0xE9 # ''rateur <eoh><call:5>K1ABC'') = Inr ''all:5>K1ABC'' \<and>
   Parse L (''Op'' @ CHR 0xE9 # ''rateur <eoh><call:5>K1ABC'') = Inr (Inr [])"
proof -
  have 1: "at_eoh (drop 2 (CHR 0xFF # CHR 0xFF # ''<eoh>''))" by code_simp
  have 2: "strip_header L (CHR 0xFF # CHR 0xFF # ''<eoh>'') = Inl SliceBoundsOutOfRange"
    by code_simp
  have 3: "Parse L (CHR 0xFF # CHR 0xFF # ''<eoh>'') = Inl SliceBoundsOutOfRange"
    by code_simp
  have 4: "fetch L duration now (Body (CHR 0xFF # CHR 0xFF # ''<eoh>'')) c =
      Inl SliceBoundsOutOfRange"
    by (simp add: fetch_def 3)
  have 5: "at_eoh (drop 10 (''Op'' @ CHR 0xE9 # ''rateur <eoh><call:5>K1ABC''))" by code_simp
  have 6: "drop (10 + 5) (''Op'' @ CHR 0xE9 # ''rateur <eoh><call:5>K1ABC'') = ''<call:5>K1ABC''"
    by code_simp
  have 7: "strip_header L (''Op'' @ CHR 0xE9 # ''rateur <eoh><call:5>K1ABC'') =
      Inr ''all:5>K1ABC''"
    by code_simp
  have 8: "Parse L (''Op'' @ CHR 0xE9 # ''rateur <eoh><call:5>K1ABC'') = Inr (Inr [])"
    by code_simp
  from 1 2 3 4 5 6 7 8 show ?thesis by (simp only: simp_thms)
qed

section \<open>Properties of the aggregation\<close>

lemma upper_byte_Y: "upper_byte c = CHR ''Y'' \<longleftrightarrow> c = CHR ''Y'' \<or> c = CHR ''y''"
proof
  assume u: "upper_byte c = CHR ''Y''"
  show "c = CHR ''Y'' \<or> c = CHR ''y''"
  proof (cases "97 \<le> (of_char c :: nat) \<and> (of_char c :: nat) \<le> 122")
    case True
    with u have "char_of ((of_char c :: nat) - 32) = CHR ''Y''"
      by (simp add: upper_byte_def)
    then have "(of_char (char_of ((of_char c :: nat) - 32)) :: nat) = of_char CHR ''Y''"
      by simp
    then have "((of_char c :: nat) - 32) mod 256 = 89"
      by (simp add: of_char_of)
    moreover from True have "((of_char c :: nat) - 32) mod 256 = (of_char c :: nat) - 32"
      by (intro mod_less) arith
    ultimately have "(of_char c :: nat) = 121"
      using True by arith
    then have "char_of (of_char c :: nat) = (char_of (121::nat) :: char)" by simp
    moreover have "(char_of (121::nat) :: char) = CHR ''y''" by code_simp
    ultimately show ?thesis by simp
  next
    case False
    with u show ?thesis by (simp add: upper_byte_def)
  qed
next
  have "upper_byte CHR ''Y'' = CHR ''Y''" and "upper_byte CHR ''y'' = CHR ''Y''"
    by code_simp+
  moreover assume "c = CHR ''Y'' \<or> c = CHR ''y''"
  ultimately show "upper_byte c = CHR ''Y''"
    by auto
qed

lemma ToUpper_Y: "ToUpper s = ''Y'' \<longleftrightarrow> s = ''Y'' \<or> s = ''y''"
  by (cases s) (auto simp: ToUpper_def upper_byte_Y)

lemma record_step_dxcc:
  "dxccConfirmed (record_step a rec) =
     (case entity_of rec of
        None \<Rightarrow> dxccConfirmed a
      | Some dxcc \<Rightarrow> AList.update dxcc True (dxccConfirmed a))"
  by (auto simp: record_step_def entity_of_def Let_def ToUpper_Y lookup_def split: option.splits)

lemma history_step_dxccCount: "dxccCount (foldl history_step c kvs) = dxccCount c"
  by (induction kvs arbitrary: c) (auto simp: history_step_def Let_def split: prod.splits)

lemma confirmed_entities_snoc:
  "confirmed_entities (records @ [rec]) =
     (case entity_of rec of
        None \<Rightarrow> confirmed_entities records
      | Some dxcc \<Rightarrow> insert dxcc (confirmed_entities records))"
  by (auto simp: confirmed_entities_def List.map_filter_def split: option.splits)

text \<open>The keys of the local map \<open>dxccConfirmed\<close> after the loop: the keys before it and the
  confirmed entities of the records, each once.\<close>

lemma dxccConfirmed_keys:
  assumes "distinct (map fst (dxccConfirmed a))"
  shows "distinct (map fst (dxccConfirmed (foldl record_step a records))) \<and>
         set (map fst (dxccConfirmed (foldl record_step a records))) =
           set (map fst (dxccConfirmed a)) \<union> confirmed_entities records"
proof (induction records rule: rev_induct)
  case Nil
  from assms show ?case by (simp add: confirmed_entities_def List.map_filter_def)
next
  case (snoc rec records)
  then show ?case
    using dom_update[of _ True "dxccConfirmed (foldl record_step a records)"]
    by (auto simp: record_step_dxcc confirmed_entities_snoc distinct_update
        split: option.splits)
qed

lemma publish_dxccCount:
  "dxccCount (publish now records c) = card (confirmed_entities records)"
proof -
  define a0 where "a0 = \<lparr>col = c\<lparr>scrapeSuccess := 1, lastFetch := now,
                 qsoTotal := [], qslTotal := [], qsoHistory := []\<rparr>,
                 dxccConfirmed = [], dateCounts = []\<rparr>"
  define a where "a = foldl record_step a0 records"
  have "distinct (map fst (dxccConfirmed a0))" by (simp add: a0_def)
  from dxccConfirmed_keys[OF this, of records]
  have d: "distinct (map fst (dxccConfirmed a))"
    and s: "set (map fst (dxccConfirmed a)) = confirmed_entities records"
    by (simp_all add: a_def a0_def)
  have "dxccCount (publish now records c) = length (dxccConfirmed a)"
    by (simp add: publish_def Let_def history_step_dxccCount a_def a0_def)
  also have "\<dots> = length (map fst (dxccConfirmed a))" by simp
  also have "\<dots> = card (set (map fst (dxccConfirmed a)))"
    using d by (simp only: distinct_card)
  finally show ?thesis using s by simp
qed

text \<open>
  C8. After a successful parse the entity gauge is the number of distinct non-empty \<open>DXCC\<close>
  values among the records confirmed by \<open>QSL_RCVD\<close> (\<open>Y\<close> in either case). One more record
  never lowers the gauge and raises it by at most one, and a record whose entity was
  already counted leaves it as it is.
\<close>

theorem entity_count:
  "dxccCount (publish now records c) = card (confirmed_entities records) \<and>
   dxccCount (publish now records c) \<le> dxccCount (publish now (records @ [rec]) c) \<and>
   dxccCount (publish now (records @ [rec]) c) \<le> dxccCount (publish now records c) + 1 \<and>
   (\<forall>dxcc. entity_of rec = Some dxcc \<and> dxcc \<in> confirmed_entities records \<longrightarrow>
      dxccCount (publish now (records @ [rec]) c) = dxccCount (publish now records c))"
proof -
  have f: "finite (confirmed_entities records)"
    by (simp add: confirmed_entities_def)
  show ?thesis
    using f
    by (auto simp: publish_dxccCount confirmed_entities_snoc card_insert_if insert_absorb
        split: option.splits)
qed

theorem entity_count_witness:
  "dxccCount (publish 5
      [[(''QSL_RCVD'', ''y''), (''DXCC'', ''291'')], [(''QSL_RCVD'', ''N''), (''DXCC'', ''1'')]]
      \<lparr>qsoTotal = [], qslTotal = [], dxccCount = 7, scrapeDuration = 0, scrapeSuccess = 0,
       lastFetch = 0, qsoHistory = []\<rparr>) = 1 \<and>
   dxccCount (publish 5
      ([[(''QSL_RCVD'', ''y''), (''DXCC'', ''291'')], [(''QSL_RCVD'', ''N''), (''DXCC'', ''1'')]]
        @ [[(''DXCC'', ''291''), (''QSL_RCVD'', ''Y'')]])
      \<lparr>qsoTotal = [], qslTotal = [], dxccCount = 7, scrapeDuration = 0, scrapeSuccess = 0,
       lastFetch = 0, qsoHistory = []\<rparr>) = 1"
proof -
  let ?recs = "[[(''QSL_RCVD'', ''y''), (''DXCC'', ''291'')],
                [(''QSL_RCVD'', ''N''), (''DXCC'', ''1'')]]"
  let ?rec = "[(''DXCC'', ''291''), (''QSL_RCVD'', ''Y'')]"
  let ?c = "\<lparr>qsoTotal = [], qslTotal = [], dxccCount = 7, scrapeDuration = 0,
       scrapeSuccess = 0, lastFetch = 0, qsoHistory = []\<rparr>"
  have e: "entity_of ?rec = Some ''291''" by code_simp
  have m: "''291'' \<in> confirmed_entities ?recs" by code_simp
  have n: "card (confirmed_entities ?recs) = 1" by code_simp
  from entity_count[of 5 ?recs ?c ?rec] e m n show ?thesis by simp
qed

text \<open>
  C7. The date bucket of a record: the first ten characters of \<open>APP_LOTW_QSO_TIMESTAMP\<close>
  when the field is present with at least ten; otherwise \<open>QSO_DATE\<close> with dashes after the
  fourth and the sixth character when it has exactly eight; otherwise none, and then the
  record leaves the daily counts as they are. A record with a bucket adds one to the
  count under the key \<open>date|band\<close>.
\<close>

theorem date_bucket_choice:
  "(map_of rec ''APP_LOTW_QSO_TIMESTAMP'' = Some ts \<and> 10 \<le> length ts \<longrightarrow>
      date_bucket rec = take 10 ts) \<and>
   ((\<forall>ts. map_of rec ''APP_LOTW_QSO_TIMESTAMP'' = Some ts \<longrightarrow> length ts < 10) \<and>
    map_of rec ''QSO_DATE'' = Some [y1, y2, y3, y4, m1, m2, d1, d2] \<longrightarrow>
      date_bucket rec = [y1, y2, y3, y4, CHR ''-'', m1, m2, CHR ''-'', d1, d2]) \<and>
   ((\<forall>ts. map_of rec ''APP_LOTW_QSO_TIMESTAMP'' = Some ts \<longrightarrow> length ts < 10) \<and>
    (\<forall>q. map_of rec ''QSO_DATE'' = Some q \<longrightarrow> length q \<noteq> 8) \<longrightarrow>
      date_bucket rec = [] \<and> dateCounts (record_step a rec) = dateCounts a) \<and>
   (date_bucket rec \<noteq> [] \<longrightarrow>
      dateCounts (record_step a rec) =
        inc (date_bucket rec @ ''|'' @ lookup rec ''BAND'') (dateCounts a))"
proof -
  have 1: "date_bucket rec = take 10 ts"
    if "map_of rec ''APP_LOTW_QSO_TIMESTAMP'' = Some ts" "10 \<le> length ts"
    using that by (simp add: date_bucket_def lookup_def)
  have 2: "date_bucket rec = [y1, y2, y3, y4, CHR ''-'', m1, m2, CHR ''-'', d1, d2]"
    if "\<forall>ts. map_of rec ''APP_LOTW_QSO_TIMESTAMP'' = Some ts \<longrightarrow> length ts < 10"
      "map_of rec ''QSO_DATE'' = Some [y1, y2, y3, y4, m1, m2, d1, d2]"
    using that by (auto simp: date_bucket_def lookup_def Let_def split: option.splits)
  have 3: "date_bucket rec = []"
    if "\<forall>ts. map_of rec ''APP_LOTW_QSO_TIMESTAMP'' = Some ts \<longrightarrow> length ts < 10"
      "\<forall>q. map_of rec ''QSO_DATE'' = Some q \<longrightarrow> length q \<noteq> 8"
    using that by (auto simp: date_bucket_def lookup_def Let_def split: option.splits)
  have 4: "dateCounts (record_step a rec) =
      (if date_bucket rec = [] then dateCounts a
       else inc (date_bucket rec @ ''|'' @ lookup rec ''BAND'') (dateCounts a))"
    by (simp add: record_step_def Let_def)
  show ?thesis using 1 2 3 4 by auto
qed

theorem date_bucket_choice_witness:
  "date_bucket [(''APP_LOTW_QSO_TIMESTAMP'', ''2025-12-10T15:31:30Z''), (''QSO_DATE'', ''20251209'')]
     = ''2025-12-10'' \<and>
   date_bucket [(''APP_LOTW_QSO_TIMESTAMP'', ''2025''), (''QSO_DATE'', ''20230102'')]
     = ''2023-01-02'' \<and>
   date_bucket [(''BAND'', ''20M''), (''QSO_DATE'', ''2023'')] = [] \<and>
   dateCounts (record_step \<lparr>col = \<lparr>qsoTotal = [], qslTotal = [], dxccCount = 0, scrapeDuration = 0,
        scrapeSuccess = 1, lastFetch = 0, qsoHistory = []\<rparr>, dxccConfirmed = [],
        dateCounts = [(''2023-01-02|20M'', 1)]\<rparr> [(''BAND'', ''20M''), (''QSO_DATE'', ''2023'')])
     = [(''2023-01-02|20M'', 1)] \<and>
   dateCounts (record_step \<lparr>col = \<lparr>qsoTotal = [], qslTotal = [], dxccCount = 0, scrapeDuration = 0,
        scrapeSuccess = 1, lastFetch = 0, qsoHistory = []\<rparr>, dxccConfirmed = [],
        dateCounts = [(''2023-01-02|20M'', 1)]\<rparr> [(''BAND'', ''20M''), (''QSO_DATE'', ''20230102'')])
     = [(''2023-01-02|20M'', 2)]"
proof -
  let ?a = "\<lparr>col = \<lparr>qsoTotal = [], qslTotal = [], dxccCount = 0, scrapeDuration = 0,
        scrapeSuccess = 1, lastFetch = 0, qsoHistory = []\<rparr>, dxccConfirmed = [],
        dateCounts = [(''2023-01-02|20M'', 1)]\<rparr>"
  let ?r1 = "[(''APP_LOTW_QSO_TIMESTAMP'', ''2025-12-10T15:31:30Z''), (''QSO_DATE'', ''20251209'')]"
  let ?r2 = "[(''APP_LOTW_QSO_TIMESTAMP'', ''2025''), (''QSO_DATE'', ''20230102'')]"
  let ?r3 = "[(''BAND'', ''20M''), (''QSO_DATE'', ''2023'')]"
  let ?r4 = "[(''BAND'', ''20M''), (''QSO_DATE'', ''20230102'')]"
  have 1: "date_bucket ?r1 = ''2025-12-10''"
    using date_bucket_choice[of ?r1 "''2025-12-10T15:31:30Z''"] by simp
  have 2: "date_bucket ?r2 = ''2023-01-02''"
    using date_bucket_choice[of ?r2 _ "CHR ''2''" "CHR ''0''" "CHR ''2''" "CHR ''3''"
        "CHR ''0''" "CHR ''1''" "CHR ''0''" "CHR ''2''"] by simp
  have 3: "date_bucket ?r3 = [] \<and> dateCounts (record_step ?a ?r3) = dateCounts ?a"
    using date_bucket_choice[of ?r3 _ _ _ _ _ _ _ _ _ ?a] by simp
  have 4: "date_bucket ?r4 = ''2023-01-02''"
    using date_bucket_choice[of ?r4 _ "CHR ''2''" "CHR ''0''" "CHR ''2''" "CHR ''3''"
        "CHR ''0''" "CHR ''1''" "CHR ''0''" "CHR ''2''"] by simp
  have 5: "dateCounts (record_step ?a ?r4) = [(''2023-01-02|20M'', 2)]"
    using date_bucket_choice[of ?r4 _ _ _ _ _ _ _ _ _ ?a] 4
    by (simp add: inc_def lookup_def)
  from 1 2 3 5 show ?thesis by simp
qed

section \<open>Properties of a cycle\<close>

lemma Parse_empty: "Parse L [] = Inr (Inr [])"
  by code_simp

lemma publish_nothing:
  "publish now [] c = c\<lparr>scrapeSuccess := 1, lastFetch := now, qsoTotal := [], qslTotal := [],
      qsoHistory := [], dxccCount := 0\<rparr>"
  by (simp add: publish_def)

text \<open>
  C9. The empty stream parses to zero records without an error, and a cycle whose stream
  parses to zero records publishes: the success flag is 1, the time stamp and the
  duration are set, the three gauge vectors are empty and the entity gauge is 0.
\<close>

theorem empty_stream_publishes:
  "Parse L [] = Inr (Inr []) \<and>
   (Parse L body = Inr (Inr []) \<longrightarrow>
      (\<exists>c'. fetch L duration now (Body body) c = Inr c' \<and>
         qsoTotal c' = [] \<and> qslTotal c' = [] \<and> qsoHistory c' = [] \<and> dxccCount c' = 0 \<and>
         scrapeSuccess c' = 1 \<and> lastFetch c' = now \<and> scrapeDuration c' = duration))"
  by (simp add: Parse_empty fetch_def publish_nothing)

theorem empty_stream_publishes_witness:
  "\<forall>L. Parse L [] = Inr (Inr []) \<and>
   (\<exists>c'. fetch L 2 1700000000 (Body [])
        \<lparr>qsoTotal = [((''20M'', ''CW''), 3)], qslTotal = [((''20M'', ''CW''), 1)], dxccCount = 1,
         scrapeDuration = 1, scrapeSuccess = 0, lastFetch = 1600000000,
         qsoHistory = [((''2023-01-01'', ''20M''), 3)]\<rparr> = Inr c' \<and>
      qsoTotal c' = [] \<and> qslTotal c' = [] \<and> qsoHistory c' = [] \<and> dxccCount c' = 0 \<and>
      scrapeSuccess c' = 1 \<and> lastFetch c' = 1700000000 \<and> scrapeDuration c' = 2)"
  using empty_stream_publishes[of _ "[]" 2 1700000000]
  by simp

text \<open>A stream of fifty megabytes or more without any \<open><\<close> cannot be tokenized: the scanner
  stops with \<open>ErrTooLong\<close>, and \<open>Parse\<close> returns that error.\<close>

lemma no_lt_no_marker:
  "is_ascii d \<Longrightarrow> CHR ''<'' \<notin> set (fold_case d) \<Longrightarrow> splitEOR L d cap False = Inr (0, None)"
  by (simp add: splitEOR_def ToLower_ascii Index_char_None)

lemma scan_too_long:
  assumes "\<not> at_eof s" and "start s = 0" and "int (length (held s)) \<le> buf_len s"
    and "0 < buf_len s" and "buf_len s \<le> maxTokenSize"
    and "maxTokenSize \<le> int (length (held s) + length (rest s))"
    and "is_ascii (held s @ rest s)"
    and "CHR ''<'' \<notin> set (fold_case (held s @ rest s))"
  shows "scan_tokens L s = ([], ScanError ErrTooLong)"
  using assms
proof (induction L s rule: scan_tokens.induct)
  case (1 L s)
  from "1.prems"(7,8) have "is_ascii (held s)" "CHR ''<'' \<notin> set (fold_case (held s))"
    by (simp_all add: fold_case_def is_ascii_append)
  from no_lt_no_marker[OF this] "1.prems"(1)
  have ts: "try_split L s = Inr (None, s)"
    by (simp add: try_split_def)
  from "1.prems"(2) have sh: "shift s = s" by (simp add: shift_def)
  show ?case
  proof (cases "int (length (held s)) = buf_len s \<and> maxTokenSize \<le> buf_len s")
    case True
    with "1.prems"(2) have "read_more s = Inl ErrTooLong"
      by (simp add: read_more_def sh grow_def)
    with ts "1.prems"(1) show ?thesis by (subst scan_tokens.simps) simp
  next
    case False
    define s' where "s' = (if int (length (held s)) = buf_len s
        then s\<lparr>buf_len := min (buf_len s * 2) maxTokenSize, start := 0\<rparr> else s)"
    from False "1.prems"(2,4,5) have g: "grow s = Inr s'"
      by (auto simp: grow_def s'_def Let_def maxInt_def maxTokenSize_def)
    from False "1.prems"(3,4,5) have free: "int (length (held s)) < buf_len s'"
      by (auto simp: s'_def)
    from False "1.prems"(3,5,6) have rne: "rest s \<noteq> []"
      by (cases "rest s") auto
    define n where "n = nat (min (buf_len s' - (start s' + int (length (held s')))) (int (length (rest s'))))"
    have s'f: "held s' = held s" "rest s' = rest s" "start s' = 0" "at_eof s' = at_eof s"
      using "1.prems"(2) by (simp_all add: s'_def)
    from free rne have n: "0 < n" "n \<le> length (rest s)" "int (length (held s) + n) \<le> buf_len s'"
      by (auto simp: n_def s'f)
    define s2 where "s2 = s'\<lparr>held := held s' @ take n (rest s'), rest := drop n (rest s')\<rparr>"
    from rne n(1) have "read s' = Inr s2"
      unfolding read_def Let_def n_def[symmetric] s2_def by (simp add: s'f)
    with g have rm: "read_more s = Inr s2" by (simp add: read_more_def sh)
    have b: "0 < buf_len s'" "buf_len s' \<le> maxTokenSize"
      using "1.prems"(4,5) by (auto simp: s'_def)
    have "scan_tokens L s2 = ([], ScanError ErrTooLong)"
    proof (rule "1.IH"(1)[OF ts refl refl _ rm])
      show "\<not> at_eof s" by (rule "1.prems"(1))
      show "\<not> at_eof s2" using "1.prems"(1) by (simp add: s2_def s'f)
      show "start s2 = 0" by (simp add: s2_def s'f)
      show "int (length (held s2)) \<le> buf_len s2" using n by (simp add: s2_def s'f)
      show "0 < buf_len s2" using b by (simp add: s2_def)
      show "buf_len s2 \<le> maxTokenSize" using b by (simp add: s2_def)
      show "maxTokenSize \<le> int (length (held s2) + length (rest s2))"
        using "1.prems"(6) n by (simp add: s2_def s'f)
      show "is_ascii (held s2 @ rest s2)"
        using "1.prems"(7) by (simp add: s2_def s'f)
      show "CHR ''<'' \<notin> set (fold_case (held s2 @ rest s2))"
        using "1.prems"(8) by (simp add: s2_def s'f)
    qed
    with ts "1.prems"(1) rm show ?thesis by (subst scan_tokens.simps) simp
  qed
qed

lemma Parse_too_long:
  assumes "maxTokenSize \<le> int n"
  shows "Parse L (replicate n CHR ''a'') = Inr (Inl ErrTooLong)"
proof -
  have l: "lower_byte CHR ''a'' = CHR ''a''" by code_simp
  have b: "(0::int) < 64 * 1024" "(64::int) * 1024 \<le> maxTokenSize"
    by (simp_all add: maxTokenSize_def)
  have "scan_tokens L (NewScanner (replicate n CHR ''a'')) = ([], ScanError ErrTooLong)"
  proof (rule scan_too_long)
    show "CHR ''<'' \<notin> set (fold_case (held (NewScanner (replicate n CHR ''a'')) @
        rest (NewScanner (replicate n CHR ''a''))))"
      by (auto simp: NewScanner_def fold_case_def l)
    show "is_ascii (held (NewScanner (replicate n CHR ''a'')) @
        rest (NewScanner (replicate n CHR ''a'')))"
      by (auto simp: NewScanner_def is_ascii_def list_all_iff)
  qed (use assms b in \<open>simp_all add: NewScanner_def\<close>)
  then show ?thesis by (simp add: Parse_def)
qed

text \<open>
  C2. A cycle that fails in the fetch, while reading the body, or because \<open>Parse\<close> returns
  an error, sets the success flag to 0 and the duration gauge to the measured duration
  and leaves everything else of the collector as it was: the totals, the confirmed
  totals, the entity count and the daily counts (and the time stamp of the last success).
\<close>

theorem failed_cycle_keeps_snapshot:
  assumes "rep = FetchError \<or> rep = ReadError \<or>
           (\<exists>body e. rep = Body body \<and> Parse L body = Inr (Inl e))"
  shows "\<exists>c'. fetch L duration now rep c = Inr c' \<and>
           qsoTotal c' = qsoTotal c \<and> qslTotal c' = qslTotal c \<and>
           dxccCount c' = dxccCount c \<and> qsoHistory c' = qsoHistory c \<and>
           lastFetch c' = lastFetch c \<and>
           scrapeSuccess c' = 0 \<and> scrapeDuration c' = duration"
  using assms by (auto simp: fetch_def)

theorem failed_cycle_keeps_snapshot_witness:
  "\<forall>L. (\<exists>c'. fetch L 3 1700000000 FetchError
        \<lparr>qsoTotal = [((''20M'', ''CW''), 3)], qslTotal = [((''20M'', ''CW''), 1)], dxccCount = 1,
         scrapeDuration = 1, scrapeSuccess = 1, lastFetch = 1600000000,
         qsoHistory = [((''2023-01-01'', ''20M''), 3)]\<rparr> = Inr c' \<and>
      qsoTotal c' = [((''20M'', ''CW''), 3)] \<and> qslTotal c' = [((''20M'', ''CW''), 1)] \<and>
      dxccCount c' = 1 \<and> qsoHistory c' = [((''2023-01-01'', ''20M''), 3)] \<and>
      lastFetch c' = 1600000000 \<and> scrapeSuccess c' = 0 \<and> scrapeDuration c' = 3) \<and>
   (\<exists>c'. fetch L 3 1700000000 (Body (replicate (nat maxTokenSize) CHR ''a''))
        \<lparr>qsoTotal = [((''20M'', ''CW''), 3)], qslTotal = [((''20M'', ''CW''), 1)], dxccCount = 1,
         scrapeDuration = 1, scrapeSuccess = 1, lastFetch = 1600000000,
         qsoHistory = [((''2023-01-01'', ''20M''), 3)]\<rparr> = Inr c' \<and>
      qsoTotal c' = [((''20M'', ''CW''), 3)] \<and> qslTotal c' = [((''20M'', ''CW''), 1)] \<and>
      dxccCount c' = 1 \<and> qsoHistory c' = [((''2023-01-01'', ''20M''), 3)] \<and>
      lastFetch c' = 1600000000 \<and> scrapeSuccess c' = 0 \<and> scrapeDuration c' = 3)"
proof
  fix L :: case_table
  let ?c = "\<lparr>qsoTotal = [((''20M'', ''CW''), 3)], qslTotal = [((''20M'', ''CW''), 1)],
         dxccCount = 1, scrapeDuration = 1, scrapeSuccess = 1, lastFetch = 1600000000,
         qsoHistory = [((''2023-01-01'', ''20M''), 3)]\<rparr>"
  have "maxTokenSize \<le> int (nat maxTokenSize)"
    by (simp add: maxTokenSize_def)
  from Parse_too_long[OF this]
  have p: "\<exists>body e. Body (replicate (nat maxTokenSize) CHR ''a'') = Body body \<and>
      Parse L body = Inr (Inl e)"
    by blast
  from failed_cycle_keeps_snapshot[of FetchError L 3 1700000000 ?c]
    failed_cycle_keeps_snapshot[of "Body (replicate (nat maxTokenSize) CHR ''a'')" L
      3 1700000000 ?c] p
  show "(\<exists>c'. fetch L 3 1700000000 FetchError ?c = Inr c' \<and>
      qsoTotal c' = [((''20M'', ''CW''), 3)] \<and> qslTotal c' = [((''20M'', ''CW''), 1)] \<and>
      dxccCount c' = 1 \<and> qsoHistory c' = [((''2023-01-01'', ''20M''), 3)] \<and>
      lastFetch c' = 1600000000 \<and> scrapeSuccess c' = 0 \<and> scrapeDuration c' = 3) \<and>
   (\<exists>c'. fetch L 3 1700000000 (Body (replicate (nat maxTokenSize) CHR ''a'')) ?c = Inr c' \<and>
      qsoTotal c' = [((''20M'', ''CW''), 3)] \<and> qslTotal c' = [((''20M'', ''CW''), 1)] \<and>
      dxccCount c' = 1 \<and> qsoHistory c' = [((''2023-01-01'', ''20M''), 3)] \<and>
      lastFetch c' = 1600000000 \<and> scrapeSuccess c' = 0 \<and> scrapeDuration c' = 3)"
    by simp
qed

end
